theory Spec2Isabelle
  imports
    Main
    "HOL-Library.Char_ord"
    "HOL-Library.List_Lexorder"
    "HOL-Library.Product_Lexorder"
begin

section \<open>InventoryPro: products, locations, movements and the balance report\<close>

text \<open>
  A shallow embedding of \<^verbatim>\<open>src/InventoryPro/app.py\<close>. The three JSON files are the
  state; every route handler is a function from the state and the decoded form fields to
  an outcome and the state afterwards. Python strings are \<open>string\<close>, compared character
  by character through the character codes; Python integers are \<open>int\<close>.
\<close>

subsection \<open>Data model\<close>

text \<open>
  The dictionaries stored in the three files. The JSON keys \<^verbatim>\<open>name\<close>, \<^verbatim>\<open>description\<close> and
  \<^verbatim>\<open>address\<close> carry the prefix of their record here (\<open>p_name\<close>, \<open>l_name\<close>, ...), the
  key \<^verbatim>\<open>product_id\<close> of a movement is \<open>m_product_id\<close>, and the keys of a report row
  carry the prefix \<open>r_\<close>.
\<close>

record product =
  product_id :: string
  p_name :: string
  p_description :: string

record location =
  location_id :: string
  l_name :: string
  l_address :: string

record movement =
  movement_id :: int
  timestamp :: string
  from_location :: "string option"
  to_location :: "string option"
  m_product_id :: string
  qty :: int

record report_row =
  r_product_id :: string
  r_product_name :: string
  r_location_id :: string
  r_location_name :: string
  r_qty :: int

text \<open>
  The outcomes the handlers flash as error messages, under the names of the specification,
  and the \<^verbatim>\<open>ValueError\<close> Python raises when a sequence is unpacked into the wrong
  number of names.
\<close>

datatype error = DuplicateId | NotFound | InvalidMovement | ValueError

text \<open>
  A file is absent (\<open>None\<close>) or holds a sequence of records. The handlers are stated on
  the sequence a file holds; the text \<^verbatim>\<open>json.dump\<close> writes for it and \<^verbatim>\<open>json.load\<close> reads
  back is modelled below (\<open>json_dumps\<close>, \<open>json_loads\<close>), and lemma \<open>typed_store_text\<close>
  relates the two views.
\<close>

record app_state =
  products_file :: "product list option"
  locations_file :: "location list option"
  movements_file :: "movement list option"

subsection \<open>Python primitives\<close>

text \<open>\<^verbatim>\<open>str.isspace\<close> on one character, for the code points below 256.\<close>

definition isspace :: "char \<Rightarrow> bool" where
  "isspace c = (of_char c \<in> {9, 10, 11, 12, 13, 28, 29, 30, 31, 32, 133, 160 :: nat})"

text \<open>\<^verbatim>\<open>str.strip()\<close>: leading and trailing whitespace removed.\<close>

definition strip :: "string \<Rightarrow> string" where
  "strip s = rev (dropWhile isspace (rev (dropWhile isspace s)))"

text \<open>\<^verbatim>\<open>request.form.get(key, default)\<close>: \<open>None\<close> is a field the form does not have.\<close>

definition form_get :: "string option \<Rightarrow> string \<Rightarrow> string" where
  "form_get v d = (case v of None \<Rightarrow> d | Some s \<Rightarrow> s)"

text \<open>The truth value of an optional string: \<^verbatim>\<open>None\<close> and \<^verbatim>\<open>''\<close> are false.\<close>

definition truthy :: "string option \<Rightarrow> bool" where
  "truthy x = (case x of None \<Rightarrow> False | Some s \<Rightarrow> s \<noteq> [])"

text \<open>\<^verbatim>\<open>max(xs, default=d)\<close>: the default only for the empty list.\<close>

fun max_default :: "int list \<Rightarrow> int \<Rightarrow> int" where
  "max_default [] d = d"
| "max_default (x # xs) d = foldl max x xs"

text \<open>
  A Python \<^verbatim>\<open>dict\<close> as an association list in insertion order, keys distinct:
  \<^verbatim>\<open>d.get(k, default)\<close> and \<^verbatim>\<open>d[k] = v\<close>, which overwrites in place a key the dictionary
  has and appends a new one at the end.
\<close>

fun dict_get :: "('k \<times> 'v) list \<Rightarrow> 'k \<Rightarrow> 'v \<Rightarrow> 'v" where
  "dict_get [] k d = d"
| "dict_get ((k', v) # kvs) k d = (if k' = k then v else dict_get kvs k d)"

fun dict_set :: "('k \<times> 'v) list \<Rightarrow> 'k \<Rightarrow> 'v \<Rightarrow> ('k \<times> 'v) list" where
  "dict_set [] k v = [(k, v)]"
| "dict_set ((k', v') # kvs) k v =
     (if k' = k then (k, v) # kvs else (k', v') # dict_set kvs k v)"

text \<open>\<^verbatim>\<open>s.split(c)\<close> for a one-character separator: one more part than separators.\<close>

fun split_sep :: "char \<Rightarrow> string \<Rightarrow> string list" where
  "split_sep c [] = [[]]"
| "split_sep c (x # xs) =
     (if x = c then [] # split_sep c xs
      else (case split_sep c xs of
              [] \<Rightarrow> [[x]]
            | w # ws \<Rightarrow> (x # w) # ws))"

text \<open>\<^verbatim>\<open>next((p for p in xs if P(p)), None)\<close>: the first element that satisfies \<open>P\<close>.\<close>

fun find_first :: "('a \<Rightarrow> bool) \<Rightarrow> 'a list \<Rightarrow> 'a option" where
  "find_first P [] = None"
| "find_first P (x # xs) = (if P x then Some x else find_first P xs)"

text \<open>
  Assigning to the keys of the dictionary \<^verbatim>\<open>next\<close> returned mutates that element of the
  list, the first one that satisfies \<open>P\<close>, and no other.
\<close>

fun update_first :: "('a \<Rightarrow> bool) \<Rightarrow> ('a \<Rightarrow> 'a) \<Rightarrow> 'a list \<Rightarrow> 'a list" where
  "update_first P f [] = []"
| "update_first P f (x # xs) = (if P x then f x # xs else x # update_first P f xs)"

subsection \<open>Flat-record store\<close>

definition load_data :: "'a list option \<Rightarrow> 'a list" where
  "load_data file = (case file of None \<Rightarrow> [] | Some records \<Rightarrow> records)"

definition save_data :: "'a list \<Rightarrow> 'a list option" where
  "save_data records = Some records"

subsection \<open>Product and location registries\<close>

definition add_product ::
  "app_state \<Rightarrow> string \<Rightarrow> string \<Rightarrow> string option \<Rightarrow> (error + unit) \<times> app_state" where
  "add_product st product_id_field name_field description_field =
     (let products = load_data (products_file st);
          pid = strip product_id_field;
          name = strip name_field;
          descr = strip (form_get description_field [])
      in if list_ex (\<lambda>p. product_id p = pid) products then (Inl DuplicateId, st)
         else (Inr (),
               st\<lparr>products_file :=
                    save_data (products @
                      [\<lparr>product_id = pid, p_name = name, p_description = descr\<rparr>])\<rparr>))"

definition edit_product ::
  "app_state \<Rightarrow> string \<Rightarrow> string \<Rightarrow> string option \<Rightarrow> (error + unit) \<times> app_state" where
  "edit_product st pid name_field description_field =
     (let products = load_data (products_file st)
      in case find_first (\<lambda>p. product_id p = pid) products of
           None \<Rightarrow> (Inl NotFound, st)
         | Some _ \<Rightarrow>
             (Inr (),
              st\<lparr>products_file :=
                   save_data (update_first (\<lambda>p. product_id p = pid)
                     (\<lambda>p. p\<lparr>p_name := strip name_field,
                             p_description := strip (form_get description_field [])\<rparr>)
                     products)\<rparr>))"

definition add_location ::
  "app_state \<Rightarrow> string \<Rightarrow> string \<Rightarrow> string option \<Rightarrow> (error + unit) \<times> app_state" where
  "add_location st location_id_field name_field address_field =
     (let locations = load_data (locations_file st);
          lid = strip location_id_field;
          name = strip name_field;
          addr = strip (form_get address_field [])
      in if list_ex (\<lambda>l. location_id l = lid) locations then (Inl DuplicateId, st)
         else (Inr (),
               st\<lparr>locations_file :=
                    save_data (locations @
                      [\<lparr>location_id = lid, l_name = name, l_address = addr\<rparr>])\<rparr>))"

definition edit_location ::
  "app_state \<Rightarrow> string \<Rightarrow> string \<Rightarrow> string option \<Rightarrow> (error + unit) \<times> app_state" where
  "edit_location st lid name_field address_field =
     (let locations = load_data (locations_file st)
      in case find_first (\<lambda>l. location_id l = lid) locations of
           None \<Rightarrow> (Inl NotFound, st)
         | Some _ \<Rightarrow>
             (Inr (),
              st\<lparr>locations_file :=
                   save_data (update_first (\<lambda>l. location_id l = lid)
                     (\<lambda>l. l\<lparr>l_name := strip name_field,
                             l_address := strip (form_get address_field [])\<rparr>)
                     locations)\<rparr>))"

subsection \<open>Movement ledger\<close>

text \<open>
  The POST branch of \<^verbatim>\<open>add_movement\<close>. The arguments are the decoded form:
  \<^verbatim>\<open>request.form['product_id']\<close>, the two optional location fields, the integer
  \<^verbatim>\<open>int(request.form['qty'])\<close>, and the text \<^verbatim>\<open>datetime.now().strftime(...)\<close> gives
  at the time of the call.
\<close>

definition add_movement ::
  "app_state \<Rightarrow> string \<Rightarrow> string option \<Rightarrow> string option \<Rightarrow> int \<Rightarrow> string
     \<Rightarrow> (error + unit) \<times> app_state" where
  "add_movement st product_id_field from_field to_field qty_field now =
     (let movements = load_data (movements_file st);
          from_stripped = strip (form_get from_field []);
          to_stripped = strip (form_get to_field []);
          from_loc = (if from_stripped = [] then None else Some from_stripped);
          to_loc = (if to_stripped = [] then None else Some to_stripped)
      in if \<not> truthy from_loc \<and> \<not> truthy to_loc then (Inl InvalidMovement, st)
         else
           (let new_id = max_default (map movement_id movements) 0 + 1
            in (Inr (),
                st\<lparr>movements_file :=
                     save_data (movements @
                       [\<lparr>movement_id = new_id, timestamp = now,
                         from_location = from_loc, to_location = to_loc,
                         m_product_id = product_id_field, qty = qty_field\<rparr>])\<rparr>)))"

subsection \<open>Balance report\<close>

text \<open>The key \<^verbatim>\<open>f"{product_id}|{location}"\<close> of the balance dictionary.\<close>

definition balance_key :: "string \<Rightarrow> string \<Rightarrow> string" where
  "balance_key pid loc = pid @ ''|'' @ loc"

text \<open>The body of the loop over the movements: the debit, then the credit.\<close>

definition apply_movement :: "(string \<times> int) list \<Rightarrow> movement \<Rightarrow> (string \<times> int) list" where
  "apply_movement balance m =
     (let b1 = (if truthy (from_location m)
                then (let key = balance_key (m_product_id m) (the (from_location m))
                      in dict_set balance key (dict_get balance key 0 - qty m))
                else balance)
      in if truthy (to_location m)
         then (let key = balance_key (m_product_id m) (the (to_location m))
               in dict_set b1 key (dict_get b1 key 0 + qty m))
         else b1)"

definition accumulate :: "movement list \<Rightarrow> (string \<times> int) list" where
  "accumulate movements = foldl apply_movement [] movements"

text \<open>The dictionary comprehensions \<^verbatim>\<open>{p['product_id']: p['name'] for p in products}\<close>.\<close>

definition product_dict :: "product list \<Rightarrow> (string \<times> string) list" where
  "product_dict products = foldl (\<lambda>d p. dict_set d (product_id p) (p_name p)) [] products"

definition location_dict :: "location list \<Rightarrow> (string \<times> string) list" where
  "location_dict locations =
     foldl (\<lambda>d l. dict_set d (location_id l) (l_name l)) [] locations"

text \<open>
  The loop over \<^verbatim>\<open>balance.items()\<close>: a key with a non-zero quantity is split at
  \<^verbatim>\<open>'|'\<close> and unpacked into two names, which raises unless the split has exactly two
  parts.
\<close>

fun collect_rows ::
  "(string \<times> string) list \<Rightarrow> (string \<times> string) list \<Rightarrow> (string \<times> int) list
     \<Rightarrow> error + report_row list" where
  "collect_rows pd ld [] = Inr []"
| "collect_rows pd ld ((key, q) # rest) =
     (if q \<noteq> 0 then
        (case split_sep CHR ''|'' key of
           [pid, lid] \<Rightarrow>
             (case collect_rows pd ld rest of
                Inl e \<Rightarrow> Inl e
              | Inr rows \<Rightarrow>
                  Inr (\<lparr>r_product_id = pid,
                        r_product_name = dict_get pd pid ''Unknown'',
                        r_location_id = lid,
                        r_location_name = dict_get ld lid ''Unknown'',
                        r_qty = q\<rparr> # rows))
         | _ \<Rightarrow> Inl ValueError)
      else collect_rows pd ld rest)"

text \<open>The sort key \<^verbatim>\<open>lambda x: (x['product_name'], x['location_name'])\<close>.\<close>

definition row_key :: "report_row \<Rightarrow> string \<times> string" where
  "row_key r = (r_product_name r, r_location_name r)"

text \<open>
  The report over the three loaded sequences; \<^verbatim>\<open>list.sort\<close> is stable, as
  \<open>sort_key\<close> is.
\<close>

definition report_data ::
  "movement list \<Rightarrow> product list \<Rightarrow> location list \<Rightarrow> error + report_row list" where
  "report_data movements products locations =
     (case collect_rows (product_dict products) (location_dict locations)
             (accumulate movements) of
        Inl e \<Rightarrow> Inl e
      | Inr rows \<Rightarrow> Inr (sort_key row_key rows))"

definition report :: "app_state \<Rightarrow> error + report_row list" where
  "report st =
     report_data (load_data (movements_file st)) (load_data (products_file st))
       (load_data (locations_file st))"


subsection \<open>Definitions used in the statements\<close>

text \<open>A run of \<open>add_product\<close> calls, with the outcome of each and the final state.\<close>

fun add_products ::
  "app_state \<Rightarrow> (string \<times> string \<times> string option) list \<Rightarrow> (error + unit) list \<times> app_state" where
  "add_products st [] = ([], st)"
| "add_products st ((i, n, d) # xs) =
     (let (r, st') = add_product st i n d;
          (rs, st'') = add_products st' xs
      in (r # rs, st''))"

text \<open>The record \<open>add_product\<close> appends for the three form fields.\<close>

definition new_product :: "string \<times> string \<times> string option \<Rightarrow> product" where
  "new_product x = (case x of (i, n, d) \<Rightarrow>
     \<lparr>product_id = strip i, p_name = strip n, p_description = strip (form_get d [])\<rparr>)"

text \<open>
  What \<open>add_movement\<close> stores for a location field: the stripped text, or \<open>None\<close> when
  nothing is left of it.
\<close>

definition stored_location :: "string option \<Rightarrow> string option" where
  "stored_location field =
     (let s = strip (form_get field []) in if s = [] then None else Some s)"

text \<open>The record \<open>add_movement\<close> appends to the ledger \<open>ms\<close>.\<close>

definition new_movement ::
  "movement list \<Rightarrow> string \<Rightarrow> string option \<Rightarrow> string option \<Rightarrow> int \<Rightarrow> string \<Rightarrow> movement" where
  "new_movement ms p f t q now =
     \<lparr>movement_id = max_default (map movement_id ms) 0 + 1, timestamp = now,
      from_location = stored_location f, to_location = stored_location t,
      m_product_id = p, qty = q\<rparr>"

text \<open>A run of \<open>add_location\<close> calls.\<close>

fun add_locations ::
  "app_state \<Rightarrow> (string \<times> string \<times> string option) list \<Rightarrow> (error + unit) list \<times> app_state" where
  "add_locations st [] = ([], st)"
| "add_locations st ((i, n, a) # xs) =
     (let (r, st') = add_location st i n a;
          (rs, st'') = add_locations st' xs
      in (r # rs, st''))"

text \<open>The record \<open>add_location\<close> appends for the three form fields.\<close>

definition new_location :: "string \<times> string \<times> string option \<Rightarrow> location" where
  "new_location x = (case x of (i, n, a) \<Rightarrow>
     \<lparr>location_id = strip i, l_name = strip n, l_address = strip (form_get a [])\<rparr>)"

text \<open>Example states: no file written yet, and one product and one location.\<close>

definition st_empty :: app_state where
  "st_empty = \<lparr>products_file = None, locations_file = None, movements_file = None\<rparr>"

definition st_one :: app_state where
  "st_one =
     \<lparr>products_file = Some [\<lparr>product_id = ''P1'', p_name = ''Bolt'', p_description = []\<rparr>],
      locations_file = Some [\<lparr>location_id = ''L1'', l_name = ''Shed'', l_address = []\<rparr>],
      movements_file = None\<rparr>"

text \<open>An example state: two products and one location.\<close>

definition st_two :: app_state where
  "st_two =
     \<lparr>products_file = Some
        [\<lparr>product_id = ''P1'', p_name = ''Bolt'', p_description = []\<rparr>,
         \<lparr>product_id = ''P2'', p_name = ''Nut'', p_description = ''M6''\<rparr>],
      locations_file = Some
        [\<lparr>location_id = ''L1'', l_name = ''Shed'', l_address = []\<rparr>],
      movements_file = None\<rparr>"

text \<open>A stored location that is absent, or has a character that is not whitespace.\<close>

definition present_location :: "string option \<Rightarrow> bool" where
  "present_location x =
     (case x of None \<Rightarrow> True | Some s \<Rightarrow> s \<noteq> [] \<and> list_ex (\<lambda>c. \<not> isspace c) s)"

text \<open>The identifiers of the ledger, in ledger order.\<close>

definition movement_ids :: "app_state \<Rightarrow> int list" where
  "movement_ids st = map movement_id (load_data (movements_file st))"

text \<open>A run of \<open>add_movement\<close> calls; a failed one leaves the state as it is.\<close>

fun add_movements ::
  "app_state \<Rightarrow> (string \<times> string option \<times> string option \<times> int \<times> string) list \<Rightarrow> app_state" where
  "add_movements st [] = st"
| "add_movements st ((p, f, t, q, now) # rs) =
     add_movements (snd (add_movement st p f t q now)) rs"

text \<open>An example state: a ledger whose identifiers have a gap.\<close>

definition st_ledger :: app_state where
  "st_ledger =
     \<lparr>products_file = None, locations_file = None,
      movements_file = Some
        [\<lparr>movement_id = 2, timestamp = ''2024-01-01 10:00:00'', from_location = None,
          to_location = Some ''L1'', m_product_id = ''P1'', qty = 10\<rparr>,
         \<lparr>movement_id = 7, timestamp = ''2024-01-02 10:00:00'', from_location = Some ''L1'',
          to_location = Some ''L2'', m_product_id = ''P1'', qty = 4\<rparr>]\<rparr>"

text \<open>
  What one movement subtracts from and adds to the entry of the balance dictionary under
  \<open>key\<close>.
\<close>

definition debit :: "movement \<Rightarrow> string \<Rightarrow> int" where
  "debit m key =
     (if truthy (from_location m) \<and>
         balance_key (m_product_id m) (the (from_location m)) = key
      then qty m else 0)"

definition credit :: "movement \<Rightarrow> string \<Rightarrow> int" where
  "credit m key =
     (if truthy (to_location m) \<and>
         balance_key (m_product_id m) (the (to_location m)) = key
      then qty m else 0)"

text \<open>Identifiers without the separator \<^verbatim>\<open>|\<close>, and ledgers that use only such identifiers.\<close>

definition no_bar :: "string \<Rightarrow> bool" where
  "no_bar s = (CHR ''|'' \<notin> set s)"

definition no_bar_opt :: "string option \<Rightarrow> bool" where
  "no_bar_opt x = (case x of None \<Rightarrow> True | Some s \<Rightarrow> no_bar s)"

definition bar_free :: "movement list \<Rightarrow> bool" where
  "bar_free ms =
     list_all (\<lambda>m. no_bar (m_product_id m) \<and> no_bar_opt (from_location m) \<and>
                   no_bar_opt (to_location m)) ms"

text \<open>The row the report builds from one entry of the balance dictionary.\<close>

definition row_of ::
  "(string \<times> string) list \<Rightarrow> (string \<times> string) list \<Rightarrow> string \<times> int \<Rightarrow> report_row" where
  "row_of pd ld x =
     (let parts = split_sep CHR ''|'' (fst x); pid = hd parts; lid = hd (tl parts)
      in \<lparr>r_product_id = pid, r_product_name = dict_get pd pid ''Unknown'',
          r_location_id = lid, r_location_name = dict_get ld lid ''Unknown'',
          r_qty = snd x\<rparr>)"

text \<open>
  The net quantity of a product at a location as the specification words it: the sum over
  the ledger of the quantities moved to that location minus those moved from it, a
  location being present when it is neither \<^verbatim>\<open>None\<close> nor empty.
\<close>

definition net :: "movement list \<Rightarrow> string \<Rightarrow> string \<Rightarrow> int" where
  "net ms pid loc =
     (\<Sum>m\<leftarrow>ms.
        (if m_product_id m = pid \<and> to_location m = Some loc \<and> loc \<noteq> [] then qty m else 0) -
        (if m_product_id m = pid \<and> from_location m = Some loc \<and> loc \<noteq> [] then qty m else 0))"

text \<open>
  The order of the report written out: product name first, location name second, strings
  compared lexicographically by character code.
\<close>

definition name_order :: "report_row \<Rightarrow> report_row \<Rightarrow> bool" where
  "name_order a b =
     (r_product_name a < r_product_name b \<or>
      (r_product_name a = r_product_name b \<and> r_location_name a \<le> r_location_name b))"

text \<open>The pair of identifiers of a report row.\<close>

definition row_ids :: "report_row \<Rightarrow> string \<times> string" where
  "row_ids r = (r_product_id r, r_location_id r)"

text \<open>
  States the handlers reach from the empty state: a product whose identifier contains
  \<^verbatim>\<open>|\<close> with one receipt, and two product/location pairs whose keys coincide.
\<close>

definition st_bar_product :: app_state where
  "st_bar_product =
     snd (add_movement
       (snd (add_location (snd (add_product st_empty ''P|1'' ''Pipe'' None)) ''L1'' ''Shed'' None))
       ''P|1'' None (Some ''L1'') 10 ''2024-01-01 10:00:00'')"

definition st_bar_collision :: app_state where
  "st_bar_collision =
     snd (add_movement
       (snd (add_movement
         (snd (add_location
           (snd (add_location
             (snd (add_product
               (snd (add_product st_empty ''A|B'' ''Pipe'' None))
               ''A'' ''Bolt'' None))
             ''C'' ''Shed'' None))
           ''B|C'' ''Yard'' None))
         ''A|B'' None (Some ''C'') 5 ''2024-01-01 10:00:00''))
       ''A'' (Some ''B|C'') None 5 ''2024-01-02 10:00:00'')"

text \<open>The ledger of the example in the specification.\<close>

definition example_movements :: "movement list" where
  "example_movements =
     [\<lparr>movement_id = 1, timestamp = [], from_location = None, to_location = Some ''L1'',
       m_product_id = ''P1'', qty = 10\<rparr>,
      \<lparr>movement_id = 2, timestamp = [], from_location = Some ''L1'', to_location = Some ''L2'',
       m_product_id = ''P1'', qty = 4\<rparr>]"

text \<open>
  A fixture with three products, two of the same name, two locations, and names that differ
  in case; and a ledger of movements that stay where they are.
\<close>

definition fixture_products :: "product list" where
  "fixture_products =
     [\<lparr>product_id = ''P1'', p_name = ''Widget'', p_description = []\<rparr>,
      \<lparr>product_id = ''P2'', p_name = ''Widget'', p_description = []\<rparr>,
      \<lparr>product_id = ''P3'', p_name = ''apple'', p_description = []\<rparr>]"

definition fixture_locations :: "location list" where
  "fixture_locations =
     [\<lparr>location_id = ''L1'', l_name = ''Zeta'', l_address = []\<rparr>,
      \<lparr>location_id = ''L2'', l_name = ''Alpha'', l_address = []\<rparr>]"

definition fixture_movements :: "movement list" where
  "fixture_movements =
     [\<lparr>movement_id = 1, timestamp = [], from_location = None, to_location = Some ''L1'',
       m_product_id = ''P1'', qty = 5\<rparr>,
      \<lparr>movement_id = 2, timestamp = [], from_location = None, to_location = Some ''L2'',
       m_product_id = ''P2'', qty = 3\<rparr>,
      \<lparr>movement_id = 3, timestamp = [], from_location = None, to_location = Some ''L1'',
       m_product_id = ''P3'', qty = 1\<rparr>,
      \<lparr>movement_id = 4, timestamp = [], from_location = Some ''L1'', to_location = Some ''L2'',
       m_product_id = ''P1'', qty = 2\<rparr>]"

definition fixture_rows :: "report_row list" where
  "fixture_rows =
     [\<lparr>r_product_id = ''P2'', r_product_name = ''Widget'', r_location_id = ''L2'',
       r_location_name = ''Alpha'', r_qty = 3\<rparr>,
      \<lparr>r_product_id = ''P1'', r_product_name = ''Widget'', r_location_id = ''L2'',
       r_location_name = ''Alpha'', r_qty = 2\<rparr>,
      \<lparr>r_product_id = ''P1'', r_product_name = ''Widget'', r_location_id = ''L1'',
       r_location_name = ''Zeta'', r_qty = 3\<rparr>,
      \<lparr>r_product_id = ''P3'', r_product_name = ''apple'', r_location_id = ''L1'',
       r_location_name = ''Zeta'', r_qty = 1\<rparr>]"

definition same_place_movements :: "movement list" where
  "same_place_movements =
     [\<lparr>movement_id = 1, timestamp = [], from_location = Some ''L1'', to_location = Some ''L1'',
       m_product_id = ''P1'', qty = 5\<rparr>,
      \<lparr>movement_id = 2, timestamp = [], from_location = Some ''L|2'', to_location = Some ''L|2'',
       m_product_id = ''P|1'', qty = 7\<rparr>,
      \<lparr>movement_id = 3, timestamp = [], from_location = None, to_location = None,
       m_product_id = ''P1'', qty = 9\<rparr>]"

subsection \<open>The text of a file: \<^verbatim>\<open>json.dump\<close> and \<^verbatim>\<open>json.load\<close>\<close>

text \<open>
  The values \<^verbatim>\<open>json.load\<close> returns and \<^verbatim>\<open>json.dump\<close> writes, floating-point numbers
  left out: \<^verbatim>\<open>None\<close>, \<^verbatim>\<open>bool\<close>, \<^verbatim>\<open>int\<close>, \<^verbatim>\<open>str\<close>, \<^verbatim>\<open>list\<close>, and \<^verbatim>\<open>dict\<close> with
  string keys as an association list in insertion order.
\<close>

datatype json =
    JNull
  | JBool bool
  | JInt int
  | JStr string
  | JArr "json list"
  | JObj "(string \<times> json) list"

text \<open>
  The outcome of decoding: a value; \<open>Bad\<close> for \<^verbatim>\<open>json.JSONDecodeError\<close>; \<open>Outside\<close> as
  soon as the text leaves what \<open>json\<close> can hold (a floating-point number, an escaped
  character above code point 255), and then nothing is said about that text;
  \<open>OutOfFuel\<close> for a recursion cut short, which \<open>json_loads\<close> never returns (lemma
  \<open>json_loads_fuel\<close>). Limits of the interpreter (recursion depth, digits of an integer)
  are not part of the model.
\<close>

datatype 'a scan = Ok 'a | Bad | Outside | OutOfFuel

text \<open>\<^verbatim>\<open>int.__repr__\<close>: decimal digits without leading zeros, a minus sign when negative.\<close>

definition digit_char :: "nat \<Rightarrow> char" where
  "digit_char n = char_of (48 + n)"

function digits :: "nat \<Rightarrow> string" where
  "digits n = (if n < 10 then [digit_char n] else digits (n div 10) @ [digit_char (n mod 10)])"
  by pat_completeness auto
termination
  by (relation "measure (\<lambda>n. n)") auto

definition int_repr :: "int \<Rightarrow> string" where
  "int_repr i = (if i < 0 then CHR ''-'' # digits (nat (- i)) else digits (nat i))"

text \<open>
  The encoder's string escape with \<^verbatim>\<open>ensure_ascii\<close>, on one character: the quote and the
  backslash behind a backslash, the five short escapes, printable ASCII as it is, anything
  else as \<^verbatim>\<open>\u00xx\<close> with lower-case hexadecimal digits.
\<close>

definition hex_digit :: "nat \<Rightarrow> char" where
  "hex_digit n = (if n < 10 then char_of (48 + n) else char_of (87 + n))"

definition escape_char :: "char \<Rightarrow> string" where
  "escape_char c =
     (if c = CHR 0x22 then [CHR 0x5C, CHR 0x22]
      else if c = CHR 0x5C then [CHR 0x5C, CHR 0x5C]
      else if c = CHR 0x0A then [CHR 0x5C, CHR ''n'']
      else if c = CHR 0x0D then [CHR 0x5C, CHR ''r'']
      else if c = CHR 0x09 then [CHR 0x5C, CHR ''t'']
      else if c = CHR 0x08 then [CHR 0x5C, CHR ''b'']
      else if c = CHR 0x0C then [CHR 0x5C, CHR ''f'']
      else if 32 \<le> (of_char c :: nat) \<and> (of_char c :: nat) \<le> 126 then [c]
      else [CHR 0x5C, CHR ''u'', CHR ''0'', CHR ''0'',
            hex_digit (of_char c div 16), hex_digit (of_char c mod 16)])"

text \<open>A string between double quotes, each character escaped.\<close>

definition dump_string :: "string \<Rightarrow> string" where
  "dump_string s = CHR 0x22 # concat (map escape_char s) @ [CHR 0x22]"

text \<open>\<^verbatim>\<open>'\n' + ' ' * 2 * level\<close>: what \<^verbatim>\<open>indent=2\<close> puts before an item at that level.\<close>

definition newline_indent :: "nat \<Rightarrow> string" where
  "newline_indent level = CHR 0x0A # replicate (2 * level) CHR '' ''"

text \<open>
  \<^verbatim>\<open>json.dump(data, f, indent=2)\<close> at an indentation level: an empty list is \<^verbatim>\<open>[]\<close>, an empty
  dictionary \<^verbatim>\<open>{}\<close>; otherwise every item is on a line of its own, items separated by a
  comma, a key from its value by a colon and a space, and the closing bracket on a line at
  the outer level.
\<close>

fun dumps_at :: "nat \<Rightarrow> json \<Rightarrow> string"
  and dump_items :: "nat \<Rightarrow> json list \<Rightarrow> string"
  and dump_members :: "nat \<Rightarrow> (string \<times> json) list \<Rightarrow> string" where
  "dumps_at level JNull = ''null''"
| "dumps_at level (JBool b) = (if b then ''true'' else ''false'')"
| "dumps_at level (JInt i) = int_repr i"
| "dumps_at level (JStr s) = dump_string s"
| "dumps_at level (JArr xs) =
     (if xs = [] then ''[]''
      else ''['' @ newline_indent (Suc level) @ dump_items (Suc level) xs @
           newline_indent level @ '']'')"
| "dumps_at level (JObj kvs) =
     (if kvs = [] then ''{}''
      else ''{'' @ newline_indent (Suc level) @ dump_members (Suc level) kvs @
           newline_indent level @ ''}'')"
| "dump_items level [] = []"
| "dump_items level (x # xs) =
     dumps_at level x @
     (if xs = [] then [] else '','' @ newline_indent level @ dump_items level xs)"
| "dump_members level [] = []"
| "dump_members level (kv # kvs) =
     dump_string (fst kv) @ '': '' @ dumps_at level (snd kv) @
     (if kvs = [] then [] else '','' @ newline_indent level @ dump_members level kvs)"

text \<open>The text \<^verbatim>\<open>json.dump\<close> writes for a value.\<close>

definition json_dumps :: "json \<Rightarrow> string" where
  "json_dumps v = dumps_at 0 v"

text \<open>The decoder's whitespace: space, tab, line feed, carriage return.\<close>

definition is_ws :: "char \<Rightarrow> bool" where
  "is_ws c = (c = CHR '' '' \<or> c = CHR 0x09 \<or> c = CHR 0x0A \<or> c = CHR 0x0D)"

definition skip_ws :: "string \<Rightarrow> string" where
  "skip_ws s = dropWhile is_ws s"

text \<open>The next character of the text is \<open>c\<close>.\<close>

definition starts :: "char \<Rightarrow> string \<Rightarrow> bool" where
  "starts c s = (case s of [] \<Rightarrow> False | x # _ \<Rightarrow> x = c)"

text \<open>Decimal and hexadecimal digits and their values.\<close>

definition is_digit :: "char \<Rightarrow> bool" where
  "is_digit c = (48 \<le> (of_char c :: nat) \<and> (of_char c :: nat) \<le> 57)"

definition digits_value :: "string \<Rightarrow> nat" where
  "digits_value ds = foldl (\<lambda>a c. 10 * a + (of_char c - 48)) 0 ds"

definition hex_value :: "char \<Rightarrow> nat option" where
  "hex_value c =
     (let n = (of_char c :: nat)
      in if 48 \<le> n \<and> n \<le> 57 then Some (n - 48)
         else if 97 \<le> n \<and> n \<le> 102 then Some (n - 87)
         else if 65 \<le> n \<and> n \<le> 70 then Some (n - 55)
         else None)"

text \<open>The character after a backslash in a string, other than \<^verbatim>\<open>u\<close>.\<close>

definition unescape :: "char \<Rightarrow> char option" where
  "unescape c =
     (if c = CHR 0x22 then Some (CHR 0x22)
      else if c = CHR 0x5C then Some (CHR 0x5C)
      else if c = CHR ''/'' then Some (CHR ''/'')
      else if c = CHR ''b'' then Some (CHR 0x08)
      else if c = CHR ''f'' then Some (CHR 0x0C)
      else if c = CHR ''n'' then Some (CHR 0x0A)
      else if c = CHR ''r'' then Some (CHR 0x0D)
      else if c = CHR ''t'' then Some (CHR 0x09)
      else None)"

text \<open>The four hexadecimal digits after \<^verbatim>\<open>\u\<close>.\<close>

definition decode_uXXXX :: "string \<Rightarrow> char scan" where
  "decode_uXXXX s =
     (case map hex_value (take 4 s) of
        [Some a, Some b, Some c, Some d] \<Rightarrow>
          (let n = ((a * 16 + b) * 16 + c) * 16 + d
           in if n < 256 then Ok (char_of n) else Outside)
      | _ \<Rightarrow> Bad)"

text \<open>
  The decoder's \<^verbatim>\<open>scanstring\<close> (strict) on the text after the opening quote: the string up
  to the closing quote, escapes decoded, a control character refused.
\<close>

function scanstring :: "string \<Rightarrow> string \<Rightarrow> (string \<times> string) scan" where
  "scanstring acc [] = Bad"
| "scanstring acc (c # s) =
     (if c = CHR 0x22 then Ok (acc, s)
      else if c = CHR 0x5C then
        (case s of
           [] \<Rightarrow> Bad
         | e # s' \<Rightarrow>
             if e = CHR ''u'' then
               (case decode_uXXXX s' of
                  Ok x \<Rightarrow> scanstring (acc @ [x]) (drop 4 s')
                | Bad \<Rightarrow> Bad
                | Outside \<Rightarrow> Outside
                | OutOfFuel \<Rightarrow> OutOfFuel)
             else
               (case unescape e of
                  None \<Rightarrow> Bad
                | Some x \<Rightarrow> scanstring (acc @ [x]) s'))
      else if (of_char c :: nat) < 32 then Bad
      else scanstring (acc @ [c]) s)"
  by pat_completeness auto
termination
  by (relation "measure (\<lambda>(acc, s). length s)") auto

text \<open>
  The decoder's number pattern: an optional minus sign, then \<^verbatim>\<open>0\<close> or a digit from 1 to 9
  with further digits; a fraction or an exponent after it makes the number a float.
\<close>

definition is_frac :: "string \<Rightarrow> bool" where
  "is_frac s = (case s of c # d # _ \<Rightarrow> c = CHR ''.'' \<and> is_digit d | _ \<Rightarrow> False)"

definition is_exp :: "string \<Rightarrow> bool" where
  "is_exp s =
     (case s of
        [] \<Rightarrow> False
      | c # r \<Rightarrow>
          (c = CHR ''e'' \<or> c = CHR ''E'') \<and>
          (case r of
             [] \<Rightarrow> False
           | d # r' \<Rightarrow>
               is_digit d \<or>
               ((d = CHR ''+'' \<or> d = CHR ''-'') \<and> (case r' of [] \<Rightarrow> False | x # _ \<Rightarrow> is_digit x))))"

definition match_number :: "string \<Rightarrow> (json \<times> string) scan" where
  "match_number s =
     (let neg = starts CHR ''-'' s;
          s1 = (if neg then tl s else s)
      in if s1 = [] \<or> \<not> is_digit (hd s1) then Bad
         else
           (let ds = (if hd s1 = CHR ''0'' then ''0'' else takeWhile is_digit s1);
                rest = drop (length ds) s1
            in if is_frac rest \<or> is_exp rest then Outside
               else Ok (JInt (if neg then - int (digits_value ds) else int (digits_value ds)),
                        rest)))"

text \<open>
  The last cases of the decoder's \<^verbatim>\<open>scan_once\<close>: the three constants, a number, and the
  float constants \<^verbatim>\<open>NaN\<close>, \<^verbatim>\<open>Infinity\<close> and \<^verbatim>\<open>-Infinity\<close>.
\<close>

definition scan_literal :: "string \<Rightarrow> (json \<times> string) scan" where
  "scan_literal s =
     (if take 4 s = ''null'' then Ok (JNull, drop 4 s)
      else if take 4 s = ''true'' then Ok (JBool True, drop 4 s)
      else if take 5 s = ''false'' then Ok (JBool False, drop 5 s)
      else
        (case match_number s of
           Ok r \<Rightarrow> Ok r
         | Outside \<Rightarrow> Outside
         | OutOfFuel \<Rightarrow> OutOfFuel
         | Bad \<Rightarrow>
             if take 3 s = ''NaN'' \<or> take 8 s = ''Infinity'' \<or> take 9 s = ''-Infinity''
             then Outside else Bad))"

text \<open>
  The decoder's \<^verbatim>\<open>scan_once\<close>, with the loops of \<^verbatim>\<open>JSONArray\<close> and \<^verbatim>\<open>JSONObject\<close>; the
  first argument bounds the recursion. \<open>scan_array\<close> starts at an item with the items read
  so far, \<open>scan_object\<close> after the opening quote of a key with the pairs read so far; a key
  read twice keeps its first place and takes the last value, as \<^verbatim>\<open>dict(pairs)\<close> does.
\<close>

fun scan_once :: "nat \<Rightarrow> string \<Rightarrow> (json \<times> string) scan"
  and scan_array :: "nat \<Rightarrow> json list \<Rightarrow> string \<Rightarrow> (json \<times> string) scan"
  and scan_object :: "nat \<Rightarrow> (string \<times> json) list \<Rightarrow> string \<Rightarrow> (json \<times> string) scan" where
  "scan_once 0 s = OutOfFuel"
| "scan_once (Suc fuel) s =
     (if starts CHR 0x22 s then
        (case scanstring [] (tl s) of
           Ok (str, r) \<Rightarrow> Ok (JStr str, r)
         | Bad \<Rightarrow> Bad
         | Outside \<Rightarrow> Outside
         | OutOfFuel \<Rightarrow> OutOfFuel)
      else if starts CHR ''{'' s then
        (let r = skip_ws (tl s)
         in if starts CHR ''}'' r then Ok (JObj [], tl r)
            else if starts CHR 0x22 r then scan_object fuel [] (tl r)
            else Bad)
      else if starts CHR ''['' s then
        (let r = skip_ws (tl s)
         in if starts CHR '']'' r then Ok (JArr [], tl r)
            else scan_array fuel [] r)
      else scan_literal s)"
| "scan_array 0 acc s = OutOfFuel"
| "scan_array (Suc fuel) acc s =
     (case scan_once fuel s of
        Ok (v, r) \<Rightarrow>
          (let r1 = skip_ws r
           in if starts CHR '']'' r1 then Ok (JArr (acc @ [v]), tl r1)
              else if starts CHR '','' r1 then scan_array fuel (acc @ [v]) (skip_ws (tl r1))
              else Bad)
      | Bad \<Rightarrow> Bad
      | Outside \<Rightarrow> Outside
      | OutOfFuel \<Rightarrow> OutOfFuel)"
| "scan_object 0 acc s = OutOfFuel"
| "scan_object (Suc fuel) acc s =
     (case scanstring [] s of
        Ok (key, r) \<Rightarrow>
          (let r1 = skip_ws r
           in if \<not> starts CHR '':'' r1 then Bad
              else
                (case scan_once fuel (skip_ws (tl r1)) of
                   Ok (v, r2) \<Rightarrow>
                     (let acc' = dict_set acc key v; r3 = skip_ws r2
                      in if starts CHR ''}'' r3 then Ok (JObj acc', tl r3)
                         else if starts CHR '','' r3 then
                           (let r4 = skip_ws (tl r3)
                            in if starts CHR 0x22 r4 then scan_object fuel acc' (tl r4)
                               else Bad)
                         else Bad)
                 | Bad \<Rightarrow> Bad
                 | Outside \<Rightarrow> Outside
                 | OutOfFuel \<Rightarrow> OutOfFuel))
      | Bad \<Rightarrow> Bad
      | Outside \<Rightarrow> Outside
      | OutOfFuel \<Rightarrow> OutOfFuel)"

text \<open>
  \<^verbatim>\<open>json.load(f)\<close> on the text of the file: whitespace, one value, whitespace, and nothing
  else. Twice the length of the text is fuel enough.
\<close>

definition json_loads :: "string \<Rightarrow> json scan" where
  "json_loads s =
     (case scan_once (2 * length s + 2) (skip_ws s) of
        Ok (v, r) \<Rightarrow> if skip_ws r = [] then Ok v else Bad
      | Bad \<Rightarrow> Bad
      | Outside \<Rightarrow> Outside
      | OutOfFuel \<Rightarrow> OutOfFuel)"

text \<open>
  For the proofs: a text that starts with what \<open>dumps_at\<close> writes after a value, the
  characters a value can start with, well-formed values (the keys of every dictionary
  distinct, as in Python), and values that are read back from their text.
\<close>

definition delimited :: "string \<Rightarrow> bool" where
  "delimited s = (case s of [] \<Rightarrow> True | c # _ \<Rightarrow> c = CHR '','' \<or> c = CHR 0x0A)"

definition value_start :: "char \<Rightarrow> bool" where
  "value_start c =
     (c = CHR 0x22 \<or> c = CHR ''{'' \<or> c = CHR ''['' \<or> c = CHR ''n'' \<or> c = CHR ''t'' \<or>
      c = CHR ''f'' \<or> c = CHR ''-'' \<or> is_digit c)"

fun wf_json :: "json \<Rightarrow> bool" where
  "wf_json (JArr xs) = (\<forall>x \<in> set xs. wf_json x)"
| "wf_json (JObj kvs) = (distinct (map fst kvs) \<and> (\<forall>kv \<in> set kvs. wf_json (snd kv)))"
| "wf_json _ = True"

definition reads_back :: "json \<Rightarrow> bool" where
  "reads_back v =
     (\<forall>level fuel rest. length (dumps_at level v) \<le> fuel \<longrightarrow> delimited rest \<longrightarrow>
        scan_once fuel (dumps_at level v @ rest) = Ok (v, rest))"

text \<open>
  \<open>load_data\<close> and \<open>save_data\<close> once more, with the file as the text it holds: absent, or any
  string.
\<close>

definition load_data_json :: "string option \<Rightarrow> json scan" where
  "load_data_json file = (case file of None \<Rightarrow> Ok (JArr []) | Some content \<Rightarrow> json_loads content)"

definition save_data_json :: "json \<Rightarrow> string option" where
  "save_data_json data = Some (json_dumps data)"

text \<open>
  The dictionaries of the three files as values, keys in the order the handlers write
  them; \<^verbatim>\<open>None\<close> is \<^verbatim>\<open>null\<close>.
\<close>

definition product_json :: "product \<Rightarrow> json" where
  "product_json p =
     JObj [(''product_id'', JStr (product_id p)), (''name'', JStr (p_name p)),
           (''description'', JStr (p_description p))]"

definition location_json :: "location \<Rightarrow> json" where
  "location_json l =
     JObj [(''location_id'', JStr (location_id l)), (''name'', JStr (l_name l)),
           (''address'', JStr (l_address l))]"

definition optional_json :: "string option \<Rightarrow> json" where
  "optional_json x = (case x of None \<Rightarrow> JNull | Some s \<Rightarrow> JStr s)"

definition movement_json :: "movement \<Rightarrow> json" where
  "movement_json m =
     JObj [(''movement_id'', JInt (movement_id m)), (''timestamp'', JStr (timestamp m)),
           (''from_location'', optional_json (from_location m)),
           (''to_location'', optional_json (to_location m)),
           (''product_id'', JStr (m_product_id m)), (''qty'', JInt (qty m))]"

text \<open>
  Example texts: the file \<^verbatim>\<open>json.dump\<close> writes for one movement whose product identifier
  contains a double quote, and a file edited by hand, on one line, with an escaped
  character.
\<close>

definition quoted :: "string \<Rightarrow> string" where
  "quoted s = CHR 0x22 # s @ [CHR 0x22]"

definition example_file_text :: string where
  "example_file_text =
     ''['' @ [CHR 0x0A] @
     ''  {'' @ [CHR 0x0A] @
     ''    '' @ quoted ''movement_id'' @ '': 12,'' @ [CHR 0x0A] @
     ''    '' @ quoted ''timestamp'' @ '': '' @ quoted ''2024-01-02 10:00:00'' @ '','' @ [CHR 0x0A] @
     ''    '' @ quoted ''from_location'' @ '': null,'' @ [CHR 0x0A] @
     ''    '' @ quoted ''to_location'' @ '': '' @ quoted ''L1'' @ '','' @ [CHR 0x0A] @
     ''    '' @ quoted ''product_id'' @ '': '' @ quoted (''P'' @ [CHR 0x5C, CHR 0x22] @ ''1'') @ '','' @ [CHR 0x0A] @
     ''    '' @ quoted ''qty'' @ '': -4'' @ [CHR 0x0A] @
     ''  }'' @ [CHR 0x0A] @
     '']''"

definition example_movement :: movement where
  "example_movement =
     \<lparr>movement_id = 12, timestamp = ''2024-01-02 10:00:00'', from_location = None,
      to_location = Some ''L1'', m_product_id = [CHR ''P'', CHR 0x22, CHR ''1''], qty = - 4\<rparr>"

definition compact_file_text :: string where
  "compact_file_text =
     '' [{'' @ quoted ''product_id'' @ '':'' @ quoted ''P1'' @ '','' @ quoted ''name'' @ '' : '' @
     quoted (''Bolt'' @ [CHR 0x5C] @ ''u00e9'') @ '' , '' @ quoted ''description'' @ '':'' @ quoted [] @
     ''}] '' @ [CHR 0x0A]"

definition example_product :: product where
  "example_product = \<lparr>product_id = ''P1'', p_name = ''Bolt'' @ [CHR 0xE9], p_description = []\<rparr>"

section \<open>Properties\<close>

subsection \<open>Registries: adding a record\<close>

lemma load_save [simp]: "load_data (save_data xs) = xs"
  by (simp add: load_data_def save_data_def)

lemma load_Some [simp]: "load_data (Some xs) = xs"
  by (simp add: load_data_def)

lemma load_None [simp]: "load_data None = []"
  by (simp add: load_data_def)

lemma list_ex_ids: "list_ex (\<lambda>p. f p = k) xs \<longleftrightarrow> k \<in> f ` set xs"
  by (auto simp: list_ex_iff)

lemma add_product_eq:
  "add_product st i n d =
     (if strip i \<in> product_id ` set (load_data (products_file st)) then (Inl DuplicateId, st)
      else (Inr (), st\<lparr>products_file := Some (load_data (products_file st) @ [new_product (i, n, d)])\<rparr>))"
  by (simp add: add_product_def Let_def list_ex_ids new_product_def save_data_def)

lemma add_products_distinct:
  "distinct (map (\<lambda>x. strip (fst x)) xs) \<Longrightarrow>
   (\<forall>x \<in> set xs. strip (fst x) \<notin> product_id ` set (load_data (products_file st))) \<Longrightarrow>
   fst (add_products st xs) = replicate (length xs) (Inr ()) \<and>
   load_data (products_file (snd (add_products st xs))) =
     load_data (products_file st) @ map new_product xs \<and>
   locations_file (snd (add_products st xs)) = locations_file st \<and>
   movements_file (snd (add_products st xs)) = movements_file st"
proof (induction xs arbitrary: st)
  case Nil
  then show ?case by simp
next
  case (Cons x xs)
  obtain i n d where x: "x = (i, n, d)" by (cases x) auto
  let ?st' = "st\<lparr>products_file := Some (load_data (products_file st) @ [new_product (i, n, d)])\<rparr>"
  from Cons.prems x have fresh: "strip i \<notin> product_id ` set (load_data (products_file st))"
    by simp
  then have step: "add_product st i n d = (Inr (), ?st')"
    by (simp add: add_product_eq)
  have ld: "load_data (products_file ?st') = load_data (products_file st) @ [new_product (i, n, d)]"
    by simp
  have d: "distinct (map (\<lambda>x. strip (fst x)) xs)"
    using Cons.prems by simp
  have f: "\<forall>y \<in> set xs. strip (fst y) \<notin> product_id ` set (load_data (products_file ?st'))"
    using Cons.prems x by (force simp: new_product_def)
  obtain rs st'' where run: "add_products ?st' xs = (rs, st'')"
    by (cases "add_products ?st' xs") auto
  from Cons.IH [OF d f] run
  have "rs = replicate (length xs) (Inr ())"
    and "load_data (products_file st'') =
           (load_data (products_file st) @ [new_product (i, n, d)]) @ map new_product xs"
    and "locations_file st'' = locations_file st"
    and "movements_file st'' = movements_file st"
    by simp_all
  moreover have "add_products st (x # xs) = (Inr () # rs, st'')"
    by (simp add: x step run)
  ultimately show ?case
    by (simp add: x)
qed

subsection \<open>Stripping whitespace\<close>

lemma truthy_stored: "truthy (stored_location f) \<longleftrightarrow> stored_location f \<noteq> None"
  by (simp add: truthy_def stored_location_def Let_def)

lemma add_movement_eq:
  "add_movement st p f t q now =
     (if stored_location f = None \<and> stored_location t = None then (Inl InvalidMovement, st)
      else (Inr (),
            st\<lparr>movements_file :=
                 Some (load_data (movements_file st) @
                   [new_movement (load_data (movements_file st)) p f t q now])\<rparr>))"
  by (simp add: add_movement_def Let_def stored_location_def truthy_def save_data_def
      new_movement_def)

lemma strip_empty_iff: "strip s = [] \<longleftrightarrow> (\<forall>c \<in> set s. isspace c)"
proof -
  have "strip s = [] \<longleftrightarrow> (\<forall>c \<in> set (dropWhile isspace s). isspace c)"
    by (simp add: strip_def dropWhile_eq_Nil_conv)
  also have "\<dots> \<longleftrightarrow> (\<forall>c \<in> set s. isspace c)"
  proof
    assume a: "\<forall>c \<in> set (dropWhile isspace s). isspace c"
    show "\<forall>c \<in> set s. isspace c"
    proof (cases "dropWhile isspace s")
      case Nil
      then show ?thesis by (simp add: dropWhile_eq_Nil_conv)
    next
      case (Cons x xs)
      then have "\<not> isspace x" using hd_dropWhile [of isspace s] by simp
      with a Cons show ?thesis by simp
    qed
  next
    assume "\<forall>c \<in> set s. isspace c"
    then show "\<forall>c \<in> set (dropWhile isspace s). isspace c"
      by (meson set_dropWhileD)
  qed
  finally show ?thesis .
qed

lemma dropWhile_id_iff: "dropWhile P xs = xs \<longleftrightarrow> (xs = [] \<or> \<not> P (hd xs))"
proof (cases xs)
  case Nil
  then show ?thesis by simp
next
  case (Cons a list)
  have "dropWhile P list \<noteq> a # list"
    using length_dropWhile_le [of P list] by (auto dest: arg_cong [where f = length])
  with Cons show ?thesis by simp
qed

lemma strip_fixed_iff:
  "strip s = s \<longleftrightarrow> (s = [] \<or> (\<not> isspace (hd s) \<and> \<not> isspace (last s)))"
proof (cases "s = []")
  case True
  then show ?thesis by (simp add: strip_def)
next
  case False
  show ?thesis
  proof
    assume eq: "strip s = s"
    have len: "length (strip s) \<le> length (dropWhile isspace s)"
      unfolding strip_def
      using length_dropWhile_le [of isspace "rev (dropWhile isspace s)"] by simp
    have "length (dropWhile isspace s) \<le> length s" by (simp add: length_dropWhile_le)
    with len eq have "length (dropWhile isspace s) = length s" by simp
    then have d1: "dropWhile isspace s = s"
      by (metis append_eq_conv_conj takeWhile_dropWhile_id length_drop diff_self_eq_0 length_0_conv
          append_self_conv2 length_append add_diff_cancel_right' )
    with eq have "rev (dropWhile isspace (rev s)) = s" by (simp add: strip_def)
    then have d2: "dropWhile isspace (rev s) = rev s" by (metis rev_rev_ident)
    from d1 False have "\<not> isspace (hd s)" by (simp add: dropWhile_id_iff)
    moreover from d2 False have "\<not> isspace (last s)"
      by (simp add: dropWhile_id_iff hd_rev)
    ultimately show "s = [] \<or> (\<not> isspace (hd s) \<and> \<not> isspace (last s))" by simp
  next
    assume "s = [] \<or> (\<not> isspace (hd s) \<and> \<not> isspace (last s))"
    with False have h: "\<not> isspace (hd s)" and l: "\<not> isspace (last s)" by simp_all
    from h False have "dropWhile isspace s = s" by (simp add: dropWhile_id_iff)
    moreover from l False have "dropWhile isspace (rev s) = rev s"
      by (simp add: dropWhile_id_iff hd_rev)
    ultimately show "strip s = s" by (simp add: strip_def)
  qed
qed

lemma strip_idem: "strip (strip s) = strip s"
proof (cases "strip s = []")
  case True
  have "strip [] = []" by (simp add: strip_def)
  with True show ?thesis by simp
next
  case False
  let ?d = "dropWhile isspace s"
  let ?r = "dropWhile isspace (rev ?d)"
  from False have r_ne: "?r \<noteq> []" by (simp add: strip_def)
  have d_ne: "?d \<noteq> []"
  proof
    assume "?d = []"
    then have "?r = []" by (simp only: rev.simps dropWhile.simps)
    with r_ne show False by (simp only:)
  qed
  have hd_r: "\<not> isspace (hd ?r)" using r_ne hd_dropWhile by blast
  have hd_d: "\<not> isspace (hd ?d)" using d_ne hd_dropWhile by blast
  have "last (strip s) = hd ?r" by (simp add: strip_def last_rev)
  then have l: "\<not> isspace (last (strip s))" using hd_r by simp
  obtain ys where ys: "rev ?d = ys @ ?r"
    by (metis takeWhile_dropWhile_id)
  then have "?d = rev ?r @ rev ys" by (metis rev_append rev_rev_ident)
  then have "hd ?d = hd (rev ?r)" using r_ne by (metis hd_append2 rev_is_Nil_conv)
  then have "\<not> isspace (hd (strip s))" using hd_d by (simp add: strip_def)
  with l show ?thesis by (simp add: strip_fixed_iff)
qed

subsection \<open>Registries: editing a record\<close>

lemma find_first_None_iff: "find_first P xs = None \<longleftrightarrow> (\<forall>x \<in> set xs. \<not> P x)"
  by (induction xs) auto

lemma update_first_nth:
  "\<exists>x \<in> set xs. P x \<Longrightarrow>
   \<exists>i < length xs. P (xs ! i) \<and> (\<forall>j < i. \<not> P (xs ! j)) \<and> update_first P f xs = xs[i := f (xs ! i)]"
proof (induction xs)
  case Nil
  then show ?case by simp
next
  case (Cons x xs)
  show ?case
  proof (cases "P x")
    case True
    then have "0 < length (x # xs) \<and> P ((x # xs) ! 0) \<and> (\<forall>j < 0. \<not> P ((x # xs) ! j)) \<and>
      update_first P f (x # xs) = (x # xs)[0 := f ((x # xs) ! 0)]"
      by simp
    then show ?thesis by blast
  next
    case False
    with Cons.prems have "\<exists>y \<in> set xs. P y" by simp
    from Cons.IH [OF this] obtain i where i: "i < length xs" "P (xs ! i)"
      "\<forall>j < i. \<not> P (xs ! j)" "update_first P f xs = xs[i := f (xs ! i)]"
      by blast
    have "\<forall>j < Suc i. \<not> P ((x # xs) ! j)"
    proof (intro allI impI)
      fix j assume "j < Suc i"
      with i(3) False show "\<not> P ((x # xs) ! j)" by (cases j) auto
    qed
    with i False have "Suc i < length (x # xs) \<and> P ((x # xs) ! Suc i) \<and>
      (\<forall>j < Suc i. \<not> P ((x # xs) ! j)) \<and>
      update_first P f (x # xs) = (x # xs)[Suc i := f ((x # xs) ! Suc i)]"
      by simp
    then show ?thesis by blast
  qed
qed

lemma edit_product_missing:
  "pid \<notin> product_id ` set (load_data (products_file st)) \<Longrightarrow>
   edit_product st pid n d = (Inl NotFound, st)"
proof -
  assume "pid \<notin> product_id ` set (load_data (products_file st))"
  then have "find_first (\<lambda>p. product_id p = pid) (load_data (products_file st)) = None"
    by (auto simp: find_first_None_iff)
  then show ?thesis by (simp add: edit_product_def)
qed

lemma edit_product_found:
  assumes "pid \<in> product_id ` set (load_data (products_file st))"
  shows "\<exists>i < length (load_data (products_file st)).
           product_id (load_data (products_file st) ! i) = pid \<and>
           (\<forall>j < i. product_id (load_data (products_file st) ! j) \<noteq> pid) \<and>
           edit_product st pid n d =
             (Inr (),
              st\<lparr>products_file := Some ((load_data (products_file st))
                [i := (load_data (products_file st) ! i)
                   \<lparr>p_name := strip n, p_description := strip (form_get d [])\<rparr>])\<rparr>)"
proof -
  let ?ps = "load_data (products_file st)"
  let ?P = "\<lambda>p. product_id p = pid"
  let ?f = "\<lambda>p. p\<lparr>p_name := strip n, p_description := strip (form_get d [])\<rparr>"
  from assms have ex: "\<exists>x \<in> set ?ps. ?P x" by auto
  then have "find_first ?P ?ps \<noteq> None" by (simp add: find_first_None_iff)
  then obtain y where y: "find_first ?P ?ps = Some y" by auto
  from update_first_nth [OF ex, of ?f] obtain i where i: "i < length ?ps" "?P (?ps ! i)"
    "\<forall>j < i. \<not> ?P (?ps ! j)" "update_first ?P ?f ?ps = ?ps[i := ?f (?ps ! i)]"
    by blast
  have "edit_product st pid n d = (Inr (), st\<lparr>products_file := Some (?ps[i := ?f (?ps ! i)])\<rparr>)"
    using y i(4) by (simp add: edit_product_def save_data_def Let_def)
  with i(1-3) show ?thesis by blast
qed

lemma edit_location_missing:
  "lid \<notin> location_id ` set (load_data (locations_file st)) \<Longrightarrow>
   edit_location st lid n a = (Inl NotFound, st)"
proof -
  assume "lid \<notin> location_id ` set (load_data (locations_file st))"
  then have "find_first (\<lambda>l. location_id l = lid) (load_data (locations_file st)) = None"
    by (auto simp: find_first_None_iff)
  then show ?thesis by (simp add: edit_location_def)
qed

lemma edit_location_found:
  assumes "lid \<in> location_id ` set (load_data (locations_file st))"
  shows "\<exists>i < length (load_data (locations_file st)).
           location_id (load_data (locations_file st) ! i) = lid \<and>
           (\<forall>j < i. location_id (load_data (locations_file st) ! j) \<noteq> lid) \<and>
           edit_location st lid n a =
             (Inr (),
              st\<lparr>locations_file := Some ((load_data (locations_file st))
                [i := (load_data (locations_file st) ! i)
                   \<lparr>l_name := strip n, l_address := strip (form_get a [])\<rparr>])\<rparr>)"
proof -
  let ?ls = "load_data (locations_file st)"
  let ?P = "\<lambda>l. location_id l = lid"
  let ?f = "\<lambda>l. l\<lparr>l_name := strip n, l_address := strip (form_get a [])\<rparr>"
  from assms have ex: "\<exists>x \<in> set ?ls. ?P x" by auto
  then have "find_first ?P ?ls \<noteq> None" by (simp add: find_first_None_iff)
  then obtain y where y: "find_first ?P ?ls = Some y" by auto
  from update_first_nth [OF ex, of ?f] obtain i where i: "i < length ?ls" "?P (?ls ! i)"
    "\<forall>j < i. \<not> ?P (?ls ! j)" "update_first ?P ?f ?ls = ?ls[i := ?f (?ls ! i)]"
    by blast
  have "edit_location st lid n a = (Inr (), st\<lparr>locations_file := Some (?ls[i := ?f (?ls ! i)])\<rparr>)"
    using y i(4) by (simp add: edit_location_def save_data_def Let_def)
  with i(1-3) show ?thesis by blast
qed

text \<open>
  Claim C7. Editing a product or a location whose identifier no stored record has fails with
  \<open>NotFound\<close> and leaves the state unchanged. Otherwise the first record with that
  identifier, at index \<open>i\<close>, gets the new name and description (or address) and keeps its
  identifier; the stored sequence is the old one updated at index \<open>i\<close> only, so every other
  record and the order are unchanged, as are the other two files.
\<close>

theorem registry_update:
  "(pid \<notin> product_id ` set (load_data (products_file st)) \<longrightarrow>
      edit_product st pid n d = (Inl NotFound, st)) \<and>
   (pid \<in> product_id ` set (load_data (products_file st)) \<longrightarrow>
      (\<exists>i < length (load_data (products_file st)).
         product_id (load_data (products_file st) ! i) = pid \<and>
         (\<forall>j < i. product_id (load_data (products_file st) ! j) \<noteq> pid) \<and>
         edit_product st pid n d =
           (Inr (),
            st\<lparr>products_file := Some ((load_data (products_file st))
              [i := \<lparr>product_id = pid, p_name = strip n,
                     p_description = strip (form_get d [])\<rparr>])\<rparr>))) \<and>
   (lid \<notin> location_id ` set (load_data (locations_file st)) \<longrightarrow>
      edit_location st lid ln a = (Inl NotFound, st)) \<and>
   (lid \<in> location_id ` set (load_data (locations_file st)) \<longrightarrow>
      (\<exists>i < length (load_data (locations_file st)).
         location_id (load_data (locations_file st) ! i) = lid \<and>
         (\<forall>j < i. location_id (load_data (locations_file st) ! j) \<noteq> lid) \<and>
         edit_location st lid ln a =
           (Inr (),
            st\<lparr>locations_file := Some ((load_data (locations_file st))
              [i := \<lparr>location_id = lid, l_name = strip ln,
                     l_address = strip (form_get a [])\<rparr>])\<rparr>)))"
proof (intro conjI impI)
  assume "pid \<notin> product_id ` set (load_data (products_file st))"
  then show "edit_product st pid n d = (Inl NotFound, st)" by (rule edit_product_missing)
next
  assume "lid \<notin> location_id ` set (load_data (locations_file st))"
  then show "edit_location st lid ln a = (Inl NotFound, st)" by (rule edit_location_missing)
next
  let ?ps = "load_data (products_file st)"
  assume "pid \<in> product_id ` set ?ps"
  from edit_product_found [OF this, of n d] obtain i where i: "i < length ?ps"
    "product_id (?ps ! i) = pid" "\<forall>j < i. product_id (?ps ! j) \<noteq> pid"
    "edit_product st pid n d = (Inr (), st\<lparr>products_file := Some (?ps
        [i := (?ps ! i)\<lparr>p_name := strip n, p_description := strip (form_get d [])\<rparr>])\<rparr>)"
    by blast
  have "(?ps ! i)\<lparr>p_name := strip n, p_description := strip (form_get d [])\<rparr> =
        \<lparr>product_id = pid, p_name = strip n, p_description = strip (form_get d [])\<rparr>"
    using i(2) by (cases "?ps ! i") simp
  with i show "\<exists>i < length ?ps. product_id (?ps ! i) = pid \<and>
         (\<forall>j < i. product_id (?ps ! j) \<noteq> pid) \<and>
         edit_product st pid n d =
           (Inr (), st\<lparr>products_file := Some (?ps
              [i := \<lparr>product_id = pid, p_name = strip n,
                     p_description = strip (form_get d [])\<rparr>])\<rparr>)"
    by auto
next
  let ?ls = "load_data (locations_file st)"
  assume "lid \<in> location_id ` set ?ls"
  from edit_location_found [OF this, of ln a] obtain i where i: "i < length ?ls"
    "location_id (?ls ! i) = lid" "\<forall>j < i. location_id (?ls ! j) \<noteq> lid"
    "edit_location st lid ln a = (Inr (), st\<lparr>locations_file := Some (?ls
        [i := (?ls ! i)\<lparr>l_name := strip ln, l_address := strip (form_get a [])\<rparr>])\<rparr>)"
    by blast
  have "(?ls ! i)\<lparr>l_name := strip ln, l_address := strip (form_get a [])\<rparr> =
        \<lparr>location_id = lid, l_name = strip ln, l_address = strip (form_get a [])\<rparr>"
    using i(2) by (cases "?ls ! i") simp
  with i show "\<exists>i < length ?ls. location_id (?ls ! i) = lid \<and>
         (\<forall>j < i. location_id (?ls ! j) \<noteq> lid) \<and>
         edit_location st lid ln a =
           (Inr (), st\<lparr>locations_file := Some (?ls
              [i := \<lparr>location_id = lid, l_name = strip ln,
                     l_address = strip (form_get a [])\<rparr>])\<rparr>)"
    by auto
qed

lemma add_location_eq:
  "add_location st i n a =
     (if strip i \<in> location_id ` set (load_data (locations_file st)) then (Inl DuplicateId, st)
      else (Inr (), st\<lparr>locations_file := Some (load_data (locations_file st) @ [new_location (i, n, a)])\<rparr>))"
  by (simp add: add_location_def Let_def list_ex_ids new_location_def save_data_def)

lemma add_locations_distinct:
  "distinct (map (\<lambda>x. strip (fst x)) xs) \<Longrightarrow>
   (\<forall>x \<in> set xs. strip (fst x) \<notin> location_id ` set (load_data (locations_file st))) \<Longrightarrow>
   fst (add_locations st xs) = replicate (length xs) (Inr ()) \<and>
   load_data (locations_file (snd (add_locations st xs))) =
     load_data (locations_file st) @ map new_location xs \<and>
   products_file (snd (add_locations st xs)) = products_file st \<and>
   movements_file (snd (add_locations st xs)) = movements_file st"
proof (induction xs arbitrary: st)
  case Nil
  then show ?case by simp
next
  case (Cons x xs)
  obtain i n a where x: "x = (i, n, a)" by (cases x) auto
  let ?st' = "st\<lparr>locations_file := Some (load_data (locations_file st) @ [new_location (i, n, a)])\<rparr>"
  from Cons.prems x have fresh: "strip i \<notin> location_id ` set (load_data (locations_file st))"
    by simp
  then have step: "add_location st i n a = (Inr (), ?st')"
    by (simp add: add_location_eq)
  have ld: "load_data (locations_file ?st') = load_data (locations_file st) @ [new_location (i, n, a)]"
    by simp
  have d: "distinct (map (\<lambda>x. strip (fst x)) xs)"
    using Cons.prems by simp
  have f: "\<forall>y \<in> set xs. strip (fst y) \<notin> location_id ` set (load_data (locations_file ?st'))"
    using Cons.prems x by (force simp: new_location_def)
  obtain rs st'' where run: "add_locations ?st' xs = (rs, st'')"
    by (cases "add_locations ?st' xs") auto
  from Cons.IH [OF d f] run
  have "rs = replicate (length xs) (Inr ())"
    and "load_data (locations_file st'') =
           (load_data (locations_file st) @ [new_location (i, n, a)]) @ map new_location xs"
    and "products_file st'' = products_file st"
    and "movements_file st'' = movements_file st"
    by simp_all
  moreover have "add_locations st (x # xs) = (Inr () # rs, st'')"
    by (simp add: x step run)
  ultimately show ?case
    by (simp add: x)
qed

text \<open>
  Claim C5. Adding a product or a location fails with \<open>DuplicateId\<close> exactly when a stored
  record has the (stripped) identifier, and then the state is unchanged; otherwise the new
  record is appended at the end of the stored sequence. A run of adds whose identifiers
  are distinct and not yet in the store all succeed, and the store then holds its old
  records followed by the new ones, in the order of the adds, identifiers preserved.
\<close>

theorem registry_add:
  "add_product st i n d =
     (if strip i \<in> product_id ` set (load_data (products_file st)) then (Inl DuplicateId, st)
      else (Inr (),
            st\<lparr>products_file := Some (load_data (products_file st) @
              [\<lparr>product_id = strip i, p_name = strip n,
                p_description = strip (form_get d [])\<rparr>])\<rparr>)) \<and>
   add_location st i n d =
     (if strip i \<in> location_id ` set (load_data (locations_file st)) then (Inl DuplicateId, st)
      else (Inr (),
            st\<lparr>locations_file := Some (load_data (locations_file st) @
              [\<lparr>location_id = strip i, l_name = strip n,
                l_address = strip (form_get d [])\<rparr>])\<rparr>)) \<and>
   (distinct (map (\<lambda>x. strip (fst x)) xs) \<and>
    (\<forall>x \<in> set xs. strip (fst x) \<notin> product_id ` set (load_data (products_file st))) \<longrightarrow>
      fst (add_products st xs) = replicate (length xs) (Inr ()) \<and>
      load_data (products_file (snd (add_products st xs))) =
        load_data (products_file st) @ map new_product xs \<and>
      map product_id (map new_product xs) = map (\<lambda>x. strip (fst x)) xs) \<and>
   (distinct (map (\<lambda>x. strip (fst x)) xs) \<and>
    (\<forall>x \<in> set xs. strip (fst x) \<notin> location_id ` set (load_data (locations_file st))) \<longrightarrow>
      fst (add_locations st xs) = replicate (length xs) (Inr ()) \<and>
      load_data (locations_file (snd (add_locations st xs))) =
        load_data (locations_file st) @ map new_location xs \<and>
      map location_id (map new_location xs) = map (\<lambda>x. strip (fst x)) xs)"
proof (intro conjI impI)
  show "add_product st i n d =
     (if strip i \<in> product_id ` set (load_data (products_file st)) then (Inl DuplicateId, st)
      else (Inr (),
            st\<lparr>products_file := Some (load_data (products_file st) @
              [\<lparr>product_id = strip i, p_name = strip n,
                p_description = strip (form_get d [])\<rparr>])\<rparr>))"
    by (simp add: add_product_eq new_product_def)
  show "add_location st i n d =
     (if strip i \<in> location_id ` set (load_data (locations_file st)) then (Inl DuplicateId, st)
      else (Inr (),
            st\<lparr>locations_file := Some (load_data (locations_file st) @
              [\<lparr>location_id = strip i, l_name = strip n,
                l_address = strip (form_get d [])\<rparr>])\<rparr>))"
    by (simp add: add_location_eq new_location_def)
  show "map product_id (map new_product xs) = map (\<lambda>x. strip (fst x)) xs"
    by (simp add: new_product_def split: prod.splits)
  show "map location_id (map new_location xs) = map (\<lambda>x. strip (fst x)) xs"
    by (simp add: new_location_def split: prod.splits)
next
  assume a: "distinct (map (\<lambda>x. strip (fst x)) xs) \<and>
    (\<forall>x \<in> set xs. strip (fst x) \<notin> product_id ` set (load_data (products_file st)))"
  then have d: "distinct (map (\<lambda>x. strip (fst x)) xs)"
    and f: "\<forall>x \<in> set xs. strip (fst x) \<notin> product_id ` set (load_data (products_file st))"
    by simp_all
  from add_products_distinct [OF d f]
  show "fst (add_products st xs) = replicate (length xs) (Inr ())"
    and "load_data (products_file (snd (add_products st xs))) =
        load_data (products_file st) @ map new_product xs"
    by simp_all
next
  assume a: "distinct (map (\<lambda>x. strip (fst x)) xs) \<and>
    (\<forall>x \<in> set xs. strip (fst x) \<notin> location_id ` set (load_data (locations_file st)))"
  then have d: "distinct (map (\<lambda>x. strip (fst x)) xs)"
    and f: "\<forall>x \<in> set xs. strip (fst x) \<notin> location_id ` set (load_data (locations_file st))"
    by simp_all
  from add_locations_distinct [OF d f]
  show "fst (add_locations st xs) = replicate (length xs) (Inr ())"
    and "load_data (locations_file (snd (add_locations st xs))) =
        load_data (locations_file st) @ map new_location xs"
    by simp_all
qed

lemma strip_lit: "strip '' P1 '' = ''P1''" "strip ''P2'' = ''P2''" "strip ''Bolt'' = ''Bolt''"
  "strip ''Nut  '' = ''Nut''" "strip [] = []" "strip ''M6'' = ''M6''" "strip ''L1 '' = ''L1''"
  by (simp_all add: strip_def isspace_def)

theorem registry_add_witness:
  "add_product st_one '' P1 '' ''Nut  '' None = (Inl DuplicateId, st_one) \<and>
   add_location st_one ''L1 '' ''Nut  '' None = (Inl DuplicateId, st_one) \<and>
   distinct (map (\<lambda>x. strip (fst x))
     [('' P1 '', ''Bolt'', None), (''P2'', ''Nut  '', Some ''M6'')]) \<and>
   load_data (products_file (snd (add_products st_empty
       [('' P1 '', ''Bolt'', None), (''P2'', ''Nut  '', Some ''M6'')]))) =
     [\<lparr>product_id = ''P1'', p_name = ''Bolt'', p_description = []\<rparr>,
      \<lparr>product_id = ''P2'', p_name = ''Nut'', p_description = ''M6''\<rparr>] \<and>
   load_data (locations_file (snd (add_locations st_empty
       [('' P1 '', ''Bolt'', None), (''P2'', ''Nut  '', Some ''M6'')]))) =
     [\<lparr>location_id = ''P1'', l_name = ''Bolt'', l_address = []\<rparr>,
      \<lparr>location_id = ''P2'', l_name = ''Nut'', l_address = ''M6''\<rparr>]"
proof -
  let ?xs = "[('' P1 '', ''Bolt'', None), (''P2'', ''Nut  '', Some ''M6'')]"
  have d: "distinct (map (\<lambda>x. strip (fst x)) ?xs)"
    by (simp add: strip_lit)
  have fp: "\<forall>x \<in> set ?xs. strip (fst x) \<notin> product_id ` set (load_data (products_file st_empty))"
    by (simp add: st_empty_def)
  have fl: "\<forall>x \<in> set ?xs. strip (fst x) \<notin> location_id ` set (load_data (locations_file st_empty))"
    by (simp add: st_empty_def)
  have m: "map new_product ?xs =
      [\<lparr>product_id = ''P1'', p_name = ''Bolt'', p_description = []\<rparr>,
       \<lparr>product_id = ''P2'', p_name = ''Nut'', p_description = ''M6''\<rparr>]"
    "map new_location ?xs =
      [\<lparr>location_id = ''P1'', l_name = ''Bolt'', l_address = []\<rparr>,
       \<lparr>location_id = ''P2'', l_name = ''Nut'', l_address = ''M6''\<rparr>]"
    by (simp_all add: new_product_def new_location_def strip_lit form_get_def)
  have e: "load_data (products_file st_empty) = []" "load_data (locations_file st_empty) = []"
    by (simp_all add: st_empty_def)
  from registry_add [of st_empty "[]" "[]" None ?xs] d fp
  have "load_data (products_file (snd (add_products st_empty ?xs))) =
      load_data (products_file st_empty) @ map new_product ?xs"
    by blast
  then have p: "load_data (products_file (snd (add_products st_empty ?xs))) =
      [\<lparr>product_id = ''P1'', p_name = ''Bolt'', p_description = []\<rparr>,
       \<lparr>product_id = ''P2'', p_name = ''Nut'', p_description = ''M6''\<rparr>]"
    by (simp only: m e append_Nil)
  from registry_add [of st_empty "[]" "[]" None ?xs] d fl
  have "load_data (locations_file (snd (add_locations st_empty ?xs))) =
      load_data (locations_file st_empty) @ map new_location ?xs"
    by blast
  then have l: "load_data (locations_file (snd (add_locations st_empty ?xs))) =
      [\<lparr>location_id = ''P1'', l_name = ''Bolt'', l_address = []\<rparr>,
       \<lparr>location_id = ''P2'', l_name = ''Nut'', l_address = ''M6''\<rparr>]"
    by (simp only: m e append_Nil)
  have dup: "add_product st_one '' P1 '' ''Nut  '' None = (Inl DuplicateId, st_one)"
    "add_location st_one ''L1 '' ''Nut  '' None = (Inl DuplicateId, st_one)"
    using registry_add [of st_one "'' P1 ''" "''Nut  ''" None "[]"]
      registry_add [of st_one "''L1 ''" "''Nut  ''" None "[]"]
    by (simp_all add: st_one_def strip_lit)
  from dup d p l show ?thesis by blast
qed

theorem registry_update_witness:
  "edit_product st_two ''P2'' ''Nut  '' None =
     (Inr (), st_two\<lparr>products_file := Some
        [\<lparr>product_id = ''P1'', p_name = ''Bolt'', p_description = []\<rparr>,
         \<lparr>product_id = ''P2'', p_name = ''Nut'', p_description = []\<rparr>]\<rparr>) \<and>
   edit_product st_two ''P3'' ''Nut  '' None = (Inl NotFound, st_two) \<and>
   edit_location st_two ''L1'' ''Bolt'' (Some ''M6'') =
     (Inr (), st_two\<lparr>locations_file := Some
        [\<lparr>location_id = ''L1'', l_name = ''Bolt'', l_address = ''M6''\<rparr>]\<rparr>) \<and>
   edit_location st_two ''P2'' ''Bolt'' None = (Inl NotFound, st_two)"
proof -
  have p: "''P2'' \<in> product_id ` set (load_data (products_file st_two))"
    "''P3'' \<notin> product_id ` set (load_data (products_file st_two))"
    "''L1'' \<in> location_id ` set (load_data (locations_file st_two))"
    "''P2'' \<notin> location_id ` set (load_data (locations_file st_two))"
    by (simp_all add: st_two_def)
  from registry_update [of "''P3''" st_two "''Nut  ''" None "''P2''" "''Bolt''" None] p
  have 1: "edit_product st_two ''P3'' ''Nut  '' None = (Inl NotFound, st_two)"
    and 2: "edit_location st_two ''P2'' ''Bolt'' None = (Inl NotFound, st_two)"
    by blast+
  from registry_update [of "''P2''" st_two "''Nut  ''" None "''L1''" "''Bolt''" "Some ''M6''"] p
  obtain i j where i: "i < length (load_data (products_file st_two))"
      "product_id (load_data (products_file st_two) ! i) = ''P2''"
      "edit_product st_two ''P2'' ''Nut  '' None =
         (Inr (), st_two\<lparr>products_file := Some ((load_data (products_file st_two))
            [i := \<lparr>product_id = ''P2'', p_name = strip ''Nut  '',
                   p_description = strip (form_get None [])\<rparr>])\<rparr>)"
    and j: "j < length (load_data (locations_file st_two))"
      "edit_location st_two ''L1'' ''Bolt'' (Some ''M6'') =
         (Inr (), st_two\<lparr>locations_file := Some ((load_data (locations_file st_two))
            [j := \<lparr>location_id = ''L1'', l_name = strip ''Bolt'',
                   l_address = strip (form_get (Some ''M6'') [])\<rparr>])\<rparr>)"
    by blast
  from i(1,2) have "i = 1" by (cases i) (simp_all add: st_two_def)
  with i(3) have 3: "edit_product st_two ''P2'' ''Nut  '' None =
     (Inr (), st_two\<lparr>products_file := Some
        [\<lparr>product_id = ''P1'', p_name = ''Bolt'', p_description = []\<rparr>,
         \<lparr>product_id = ''P2'', p_name = ''Nut'', p_description = []\<rparr>]\<rparr>)"
    by (simp add: st_two_def strip_lit form_get_def)
  from j(1) have "j = 0" by (simp add: st_two_def)
  with j(2) have 4: "edit_location st_two ''L1'' ''Bolt'' (Some ''M6'') =
     (Inr (), st_two\<lparr>locations_file := Some
        [\<lparr>location_id = ''L1'', l_name = ''Bolt'', l_address = ''M6''\<rparr>]\<rparr>)"
    by (simp add: st_two_def strip_lit form_get_def)
  from 1 2 3 4 show ?thesis by blast
qed

subsection \<open>Ledger: appending a movement\<close>

lemma stored_location_None_iff:
  "stored_location f = None \<longleftrightarrow> (\<forall>c \<in> set (form_get f []). isspace c)"
  by (simp add: stored_location_def Let_def strip_empty_iff)

lemma present_stored: "present_location (stored_location f)"
proof (cases "strip (form_get f []) = []")
  case True
  then show ?thesis by (simp add: stored_location_def present_location_def)
next
  case False
  then have "strip (strip (form_get f [])) \<noteq> []" by (simp add: strip_idem)
  then have "\<not> (\<forall>c \<in> set (strip (form_get f [])). isspace c)"
    using strip_empty_iff [of "strip (form_get f [])"] by blast
  then have "list_ex (\<lambda>c. \<not> isspace c) (strip (form_get f []))"
    by (simp add: list_ex_iff)
  with False show ?thesis by (simp add: stored_location_def present_location_def)
qed

lemma foldl_max_Max: "foldl max (x :: int) xs = Max (set (x # xs))"
proof (induction xs arbitrary: x)
  case Nil
  then show ?case by simp
next
  case (Cons y ys)
  have "foldl max x (y # ys) = Max (set (max x y # ys))" using Cons.IH by simp
  also have "\<dots> = Max (insert x (insert y (set ys)))"
  proof (cases "ys = []")
    case True
    then show ?thesis by (simp add: max.commute)
  next
    case False
    then show ?thesis by (simp add: max.assoc)
  qed
  finally show ?case by simp
qed

lemma max_default_Max: "xs \<noteq> [] \<Longrightarrow> max_default xs d = Max (set xs)"
proof (cases xs)
  case Nil
  assume "xs \<noteq> []"
  with Nil show ?thesis by simp
next
  case (Cons y ys)
  then show ?thesis by (simp only: max_default.simps foldl_max_Max)
qed

lemma max_default_ge: "x \<in> set xs \<Longrightarrow> x \<le> max_default xs d"
proof -
  assume x: "x \<in> set xs"
  then have "xs \<noteq> []" by auto
  then have "max_default xs d = Max (set xs)" by (rule max_default_Max)
  with x show ?thesis by simp
qed

lemma new_movement_id_greater:
  "x \<in> set ms \<Longrightarrow> movement_id x < movement_id (new_movement ms p f t q now)"
proof -
  assume "x \<in> set ms"
  then have "movement_id x \<in> set (map movement_id ms)" by simp
  from max_default_ge [OF this, of 0] show ?thesis by (simp add: new_movement_def)
qed

lemma sorted_wrt_snoc_less:
  "sorted_wrt (<) (xs :: int list) \<Longrightarrow> \<forall>x \<in> set xs. x < y \<Longrightarrow> sorted_wrt (<) (xs @ [y])"
  by (simp add: sorted_wrt_append)

lemma add_movement_ids_sorted:
  "sorted_wrt (<) (movement_ids st) \<Longrightarrow>
   sorted_wrt (<) (movement_ids (snd (add_movement st p f t q now)))"
proof (cases "stored_location f = None \<and> stored_location t = None")
  case True
  assume "sorted_wrt (<) (movement_ids st)"
  with True show ?thesis by (simp add: add_movement_eq)
next
  case False
  assume s: "sorted_wrt (<) (movement_ids st)"
  let ?ms = "load_data (movements_file st)"
  have "\<forall>x \<in> set (map movement_id ?ms). x < movement_id (new_movement ?ms p f t q now)"
    using new_movement_id_greater by auto
  with s have "sorted_wrt (<) (map movement_id ?ms @ [movement_id (new_movement ?ms p f t q now)])"
    unfolding movement_ids_def by (rule sorted_wrt_snoc_less)
  with False show ?thesis by (auto simp add: add_movement_eq movement_ids_def)
qed

lemma add_movements_ids_sorted:
  "sorted_wrt (<) (movement_ids st) \<Longrightarrow> sorted_wrt (<) (movement_ids (add_movements st rs))"
proof (induction rs arbitrary: st)
  case Nil
  then show ?case by simp
next
  case (Cons r rs)
  obtain p f t q now where r: "r = (p, f, t, q, now)" by (cases r) auto
  from Cons.prems have "sorted_wrt (<) (movement_ids (snd (add_movement st p f t q now)))"
    by (rule add_movement_ids_sorted)
  from Cons.IH [OF this] show ?case by (simp add: r)
qed

lemma sorted_wrt_less_distinct: "sorted_wrt (<) (xs :: int list) \<Longrightarrow> distinct xs"
  by (induction xs) auto

text \<open>
  Claim C4. Appending a movement fails with \<open>InvalidMovement\<close> exactly when both location
  fields are missing or empty once stripped, and then the state is unchanged. Otherwise it
  succeeds and appends exactly one record with the given product and quantity and the two
  locations as stored: a missing or empty field as \<open>None\<close>, a non-empty identifier without
  surrounding whitespace as itself.
\<close>

theorem ledger_append:
  "(fst (add_movement st p f t q now) = Inl InvalidMovement \<longleftrightarrow>
      strip (form_get f []) = [] \<and> strip (form_get t []) = []) \<and>
   (strip (form_get f []) = [] \<and> strip (form_get t []) = [] \<longrightarrow>
      add_movement st p f t q now = (Inl InvalidMovement, st)) \<and>
   (\<not> (strip (form_get f []) = [] \<and> strip (form_get t []) = []) \<longrightarrow>
      add_movement st p f t q now =
        (Inr (),
         st\<lparr>movements_file := Some (load_data (movements_file st) @
           [\<lparr>movement_id = max_default (map movement_id (load_data (movements_file st))) 0 + 1,
             timestamp = now,
             from_location = stored_location f, to_location = stored_location t,
             m_product_id = p, qty = q\<rparr>])\<rparr>)) \<and>
   stored_location None = None \<and>
   stored_location (Some []) = None \<and>
   (s \<noteq> [] \<and> strip s = s \<longrightarrow> stored_location (Some s) = Some s)"
proof -
  have n: "stored_location f = None \<longleftrightarrow> strip (form_get f []) = []"
    "stored_location t = None \<longleftrightarrow> strip (form_get t []) = []"
    by (simp_all add: stored_location_def Let_def)
  have e: "strip [] = []" by (simp add: strip_def)
  show ?thesis
    by (simp add: add_movement_eq n new_movement_def)
      (simp add: stored_location_def form_get_def e)
qed

lemma strip_lit2: "strip '' '' = []" "strip ''L2'' = ''L2''" "strip '' L3 '' = ''L3''"
  "strip [CHR 0x09, CHR '' ''] = []" "strip ''L1'' = ''L1''"
  by (simp_all add: strip_def isspace_def)

theorem ledger_append_witness:
  "add_movement st_ledger ''P1'' (Some '' '') None 5 ''2024-01-03 10:00:00'' =
     (Inl InvalidMovement, st_ledger) \<and>
   add_movement st_ledger ''P1'' (Some '' '') (Some ''L2'') 5 ''2024-01-03 10:00:00'' =
     (Inr (),
      st_ledger\<lparr>movements_file := Some (load_data (movements_file st_ledger) @
        [\<lparr>movement_id = 8, timestamp = ''2024-01-03 10:00:00'', from_location = None,
          to_location = Some ''L2'', m_product_id = ''P1'', qty = 5\<rparr>])\<rparr>) \<and>
   stored_location (Some ''L2'') = Some ''L2''"
  using ledger_append [of st_ledger "''P1''" "Some '' ''" None 5 "''2024-01-03 10:00:00''" "''L2''"]
    ledger_append [of st_ledger "''P1''" "Some '' ''" "Some ''L2''" 5 "''2024-01-03 10:00:00''" "''L2''"]
  by (simp add: form_get_def strip_lit2 strip_lit stored_location_def st_ledger_def)

text \<open>
  Claim C9. A location field is stored as \<open>None\<close> exactly when it is missing, empty or
  whitespace only. An append whose two location fields are whitespace only fails with
  \<open>InvalidMovement\<close>, as the append with both fields omitted does. The movement a
  successful append stores has no empty or whitespace-only location, and a ledger without
  such locations stays so under every append.
\<close>

theorem whitespace_location_absent:
  "(stored_location f = None \<longleftrightarrow> (\<forall>c \<in> set (form_get f []). isspace c)) \<and>
   ((\<forall>c \<in> set (form_get f []). isspace c) \<and> (\<forall>c \<in> set (form_get t []). isspace c) \<longrightarrow>
      add_movement st p f t q now = (Inl InvalidMovement, st) \<and>
      add_movement st p f t q now = add_movement st p None None q now) \<and>
   (add_movement st p f t q now = (Inr (), st') \<longrightarrow>
      (\<exists>m. load_data (movements_file st') = load_data (movements_file st) @ [m] \<and>
           present_location (from_location m) \<and> present_location (to_location m))) \<and>
   ((\<forall>m \<in> set (load_data (movements_file st)).
        present_location (from_location m) \<and> present_location (to_location m)) \<longrightarrow>
    (\<forall>m \<in> set (load_data (movements_file (snd (add_movement st p f t q now)))).
        present_location (from_location m) \<and> present_location (to_location m)))"
proof (intro conjI impI)
  show "stored_location f = None \<longleftrightarrow> (\<forall>c \<in> set (form_get f []). isspace c)"
    by (rule stored_location_None_iff)
next
  assume "(\<forall>c \<in> set (form_get f []). isspace c) \<and> (\<forall>c \<in> set (form_get t []). isspace c)"
  then have n: "stored_location f = None" "stored_location t = None"
    by (simp_all add: stored_location_None_iff)
  then show inv: "add_movement st p f t q now = (Inl InvalidMovement, st)"
    by (simp add: add_movement_eq)
  have "stored_location None = None"
    by (simp add: stored_location_None_iff form_get_def)
  then have "add_movement st p None None q now = (Inl InvalidMovement, st)"
    by (simp add: add_movement_eq)
  with inv show "add_movement st p f t q now = add_movement st p None None q now"
    by simp
next
  assume ok: "add_movement st p f t q now = (Inr (), st')"
  let ?m = "new_movement (load_data (movements_file st)) p f t q now"
  from ok have "load_data (movements_file st') = load_data (movements_file st) @ [?m]"
    by (auto simp: add_movement_eq split: if_splits)
  moreover have "present_location (from_location ?m)" "present_location (to_location ?m)"
    by (simp_all add: new_movement_def present_stored)
  ultimately show "\<exists>m. load_data (movements_file st') = load_data (movements_file st) @ [m] \<and>
           present_location (from_location m) \<and> present_location (to_location m)"
    by blast
next
  assume inv: "\<forall>m \<in> set (load_data (movements_file st)).
        present_location (from_location m) \<and> present_location (to_location m)"
  let ?m = "new_movement (load_data (movements_file st)) p f t q now"
  have "present_location (from_location ?m)" "present_location (to_location ?m)"
    by (simp_all add: new_movement_def present_stored)
  with inv show "\<forall>m \<in> set (load_data (movements_file (snd (add_movement st p f t q now)))).
        present_location (from_location m) \<and> present_location (to_location m)"
    by (auto simp: add_movement_eq)
qed

theorem whitespace_location_absent_witness:
  "list_all isspace (form_get (Some [CHR 0x09, CHR '' '']) []) \<and>
   list_all isspace (form_get (Some '' '') []) \<and>
   add_movement st_ledger ''P1'' (Some [CHR 0x09, CHR '' '']) (Some '' '') 5 [] =
     (Inl InvalidMovement, st_ledger) \<and>
   add_movement st_ledger ''P1'' (Some [CHR 0x09, CHR '' '']) (Some '' '') 5 [] =
     add_movement st_ledger ''P1'' None None 5 [] \<and>
   list_all (\<lambda>m. present_location (from_location m) \<and> present_location (to_location m))
     (load_data (movements_file st_ledger)) \<and>
   list_all (\<lambda>m. present_location (from_location m) \<and> present_location (to_location m))
     (load_data (movements_file
        (snd (add_movement st_ledger ''P1'' (Some '' L3 '') (Some '' '') 5 [])))) \<and>
   (\<exists>m. load_data (movements_file
        (snd (add_movement st_ledger ''P1'' (Some '' L3 '') (Some '' '') 5 []))) =
      load_data (movements_file st_ledger) @ [m] \<and>
      from_location m = Some ''L3'' \<and> to_location m = None)"
proof -
  have w: "\<forall>c \<in> set (form_get (Some [CHR 0x09, CHR '' '']) []). isspace c"
    "\<forall>c \<in> set (form_get (Some '' '') []). isspace c"
    by (simp_all add: form_get_def isspace_def)
  have inv: "\<forall>m \<in> set (load_data (movements_file st_ledger)).
      present_location (from_location m) \<and> present_location (to_location m)"
    by (simp add: st_ledger_def present_location_def isspace_def)
  note a = whitespace_location_absent
    [of "Some [CHR 0x09, CHR '' '']" "Some '' ''" st_ledger "''P1''" 5 "[]" st_ledger]
  note b = whitespace_location_absent
    [of "Some '' L3 ''" "Some '' ''" st_ledger "''P1''" 5 "[]" st_ledger]
  from a w have 1: "add_movement st_ledger ''P1'' (Some [CHR 0x09, CHR '' '']) (Some '' '') 5 [] =
     (Inl InvalidMovement, st_ledger)"
    and 2: "add_movement st_ledger ''P1'' (Some [CHR 0x09, CHR '' '']) (Some '' '') 5 [] =
     add_movement st_ledger ''P1'' None None 5 []"
    by blast+
  from b inv have 3: "\<forall>m \<in> set (load_data (movements_file
        (snd (add_movement st_ledger ''P1'' (Some '' L3 '') (Some '' '') 5 [])))).
      present_location (from_location m) \<and> present_location (to_location m)"
    by blast
  have 4: "\<exists>m. load_data (movements_file
        (snd (add_movement st_ledger ''P1'' (Some '' L3 '') (Some '' '') 5 []))) =
      load_data (movements_file st_ledger) @ [m] \<and>
      from_location m = Some ''L3'' \<and> to_location m = None"
    by (simp add: add_movement_eq stored_location_def form_get_def strip_lit2 new_movement_def)
  from w 1 2 inv 3 4 show ?thesis unfolding list_all_iff by blast
qed

text \<open>
  Claim C3. A successful append stores the new movement with identifier \<open>1\<close> on an empty
  ledger and the greatest stored identifier plus one otherwise, whatever gaps the stored
  identifiers have; it is greater than every stored identifier. Hence identifiers that are
  strictly increasing in ledger order stay strictly increasing, and so distinct, under one
  append and under any run of appends, and distinct identifiers stay distinct.
\<close>

theorem movement_id_assignment:
  "(add_movement st p f t q now = (Inr (), st') \<longrightarrow>
      (\<exists>m. load_data (movements_file st') = load_data (movements_file st) @ [m] \<and>
           movement_id m =
             (if load_data (movements_file st) = [] then 1
              else Max (set (movement_ids st)) + 1) \<and>
           (\<forall>x \<in> set (load_data (movements_file st)). movement_id x < movement_id m))) \<and>
   (sorted_wrt (<) (movement_ids st) \<longrightarrow>
      sorted_wrt (<) (movement_ids (snd (add_movement st p f t q now))) \<and>
      distinct (movement_ids (snd (add_movement st p f t q now))) \<and>
      sorted_wrt (<) (movement_ids (add_movements st rs)) \<and>
      distinct (movement_ids (add_movements st rs))) \<and>
   (distinct (movement_ids st) \<longrightarrow>
      distinct (movement_ids (snd (add_movement st p f t q now))))"
proof (intro conjI impI)
  assume ok: "add_movement st p f t q now = (Inr (), st')"
  let ?ms = "load_data (movements_file st)"
  let ?m = "new_movement ?ms p f t q now"
  from ok have l: "load_data (movements_file st') = ?ms @ [?m]"
    by (auto simp: add_movement_eq split: if_splits)
  have i: "movement_id ?m = (if ?ms = [] then 1 else Max (set (movement_ids st)) + 1)"
  proof (cases "?ms = []")
    case True
    then show ?thesis by (simp add: new_movement_def)
  next
    case False
    then have "map movement_id ?ms \<noteq> []" by simp
    from max_default_Max [OF this, of 0] False show ?thesis
      by (simp add: new_movement_def movement_ids_def)
  qed
  have g: "\<forall>x \<in> set ?ms. movement_id x < movement_id ?m"
    using new_movement_id_greater by blast
  from l i g show "\<exists>m. load_data (movements_file st') = ?ms @ [m] \<and>
           movement_id m = (if ?ms = [] then 1 else Max (set (movement_ids st)) + 1) \<and>
           (\<forall>x \<in> set ?ms. movement_id x < movement_id m)"
    by blast
next
  assume s: "sorted_wrt (<) (movement_ids st)"
  then show s1: "sorted_wrt (<) (movement_ids (snd (add_movement st p f t q now)))"
    by (rule add_movement_ids_sorted)
  then show "distinct (movement_ids (snd (add_movement st p f t q now)))"
    by (rule sorted_wrt_less_distinct)
  from s show s2: "sorted_wrt (<) (movement_ids (add_movements st rs))"
    by (rule add_movements_ids_sorted)
  then show "distinct (movement_ids (add_movements st rs))"
    by (rule sorted_wrt_less_distinct)
next
  assume d: "distinct (movement_ids st)"
  let ?ms = "load_data (movements_file st)"
  let ?m = "new_movement ?ms p f t q now"
  have "movement_id ?m \<notin> set (map movement_id ?ms)"
    using new_movement_id_greater [of _ ?ms p f t q now] by force
  with d show "distinct (movement_ids (snd (add_movement st p f t q now)))"
    by (auto simp: add_movement_eq movement_ids_def)
qed

theorem movement_id_assignment_witness:
  "sorted_wrt (<) (movement_ids st_ledger) \<and>
   movement_ids (snd (add_movement st_ledger ''P1'' None (Some ''L2'') 5 [])) = [2, 7, 8] \<and>
   movement_ids (snd (add_movement st_empty ''P1'' None (Some ''L2'') 5 [])) = [1] \<and>
   sorted_wrt (<) (movement_ids (add_movements st_ledger
     [(''P1'', None, Some ''L2'', 5, []), (''P1'', None, None, 1, []),
      (''P2'', Some ''L1'', None, 3, [])])) \<and>
   movement_ids (add_movements st_ledger
     [(''P1'', None, Some ''L2'', 5, []), (''P1'', None, None, 1, []),
      (''P2'', Some ''L1'', None, 3, [])]) = [2, 7, 8, 9]"
proof -
  let ?rs = "[(''P1'', None, Some ''L2'', 5, []), (''P1'', None, None, 1, []),
      (''P2'', Some ''L1'', None, 3, [])]"
  have s: "sorted_wrt (<) (movement_ids st_ledger)"
    by (simp add: movement_ids_def st_ledger_def)
  from movement_id_assignment [of st_ledger "''P1''" None "Some ''L2''" 5 "[]" st_ledger ?rs] s
  have 1: "sorted_wrt (<) (movement_ids (add_movements st_ledger ?rs))"
    by blast
  have 2: "movement_ids (snd (add_movement st_ledger ''P1'' None (Some ''L2'') 5 [])) = [2, 7, 8]"
    by (simp add: add_movement_eq stored_location_def form_get_def strip_lit2 strip_lit
        new_movement_def movement_ids_def st_ledger_def)
  have 3: "movement_ids (snd (add_movement st_empty ''P1'' None (Some ''L2'') 5 [])) = [1]"
    by (simp add: add_movement_eq stored_location_def form_get_def strip_lit2 strip_lit
        new_movement_def movement_ids_def st_empty_def)
  have 4: "movement_ids (add_movements st_ledger ?rs) = [2, 7, 8, 9]"
    by (simp add: add_movement_eq stored_location_def form_get_def strip_lit2 strip_lit
        new_movement_def movement_ids_def st_ledger_def)
  from s 1 2 3 4 show ?thesis by blast
qed

subsection \<open>Balance report: the accumulated dictionary\<close>

lemma dict_get_set: "dict_get (dict_set b k v) k' d = (if k' = k then v else dict_get b k' d)"
  by (induction b) auto

lemma dict_set_keys: "fst ` set (dict_set b k v) = insert k (fst ` set b)"
proof (induction b)
  case Nil
  then show ?case by simp
next
  case (Cons x b)
  obtain k' v' where x: "x = (k', v')" by (cases x)
  show ?case
  proof (cases "k' = k")
    case True
    with x show ?thesis by simp
  next
    case False
    with x have "fst ` set (dict_set (x # b) k v) = insert k' (fst ` set (dict_set b k v))"
      by simp
    with Cons.IH x show ?thesis by auto
  qed
qed

lemma dict_set_distinct: "distinct (map fst b) \<Longrightarrow> distinct (map fst (dict_set b k v))"
proof (induction b)
  case Nil
  then show ?case by simp
next
  case (Cons x b)
  obtain k' v' where x: "x = (k', v')" by (cases x)
  show ?case
  proof (cases "k' = k")
    case True
    with Cons.prems x show ?thesis by simp
  next
    case False
    from Cons.prems x have "k' \<notin> fst ` set b" by simp
    with False have "k' \<notin> fst ` set (dict_set b k v)" by (simp add: dict_set_keys)
    moreover from Cons have "distinct (map fst (dict_set b k v))" by simp
    ultimately show ?thesis using False x by simp
  qed
qed

lemma dict_get_member: "distinct (map fst b) \<Longrightarrow> (k, v) \<in> set b \<Longrightarrow> dict_get b k d = v"
  by (induction b) (auto simp: rev_image_eqI)

lemma dict_get_absent: "k \<notin> fst ` set b \<Longrightarrow> dict_get b k d = d"
  by (induction b) auto

lemma dict_get_present: "k \<in> fst ` set b \<Longrightarrow> (k, dict_get b k d) \<in> set b"
  by (induction b) force+

lemma apply_movement_get:
  "dict_get (apply_movement b m) k 0 = dict_get b k 0 - debit m k + credit m k"
  by (simp add: apply_movement_def Let_def dict_get_set debit_def credit_def)

lemma apply_movement_distinct:
  "distinct (map fst b) \<Longrightarrow> distinct (map fst (apply_movement b m))"
  by (simp add: apply_movement_def Let_def dict_set_distinct)

lemma apply_movement_keys:
  "fst ` set (apply_movement b m) =
     fst ` set b \<union>
     (if truthy (from_location m)
      then {balance_key (m_product_id m) (the (from_location m))} else {}) \<union>
     (if truthy (to_location m)
      then {balance_key (m_product_id m) (the (to_location m))} else {})"
  by (auto simp: apply_movement_def Let_def dict_set_keys)

lemma foldl_apply_get:
  "dict_get (foldl apply_movement b ms) k 0 =
     dict_get b k 0 + (\<Sum>m\<leftarrow>ms. credit m k - debit m k)"
  by (induction ms arbitrary: b) (simp_all add: apply_movement_get)

lemma foldl_apply_distinct:
  "distinct (map fst b) \<Longrightarrow> distinct (map fst (foldl apply_movement b ms))"
  by (induction ms arbitrary: b) (simp_all add: apply_movement_distinct)

lemma foldl_apply_keys:
  "k \<in> fst ` set (foldl apply_movement b ms) \<longleftrightarrow>
     k \<in> fst ` set b \<or>
     (\<exists>m \<in> set ms.
        (truthy (from_location m) \<and> balance_key (m_product_id m) (the (from_location m)) = k) \<or>
        (truthy (to_location m) \<and> balance_key (m_product_id m) (the (to_location m)) = k))"
proof (induction ms arbitrary: b)
  case Nil
  then show ?case by simp
next
  case (Cons m ms)
  show ?case
    unfolding foldl_Cons Cons.IH apply_movement_keys by (auto split: if_splits)
qed

lemma accumulate_get:
  "dict_get (accumulate ms) k 0 = (\<Sum>m\<leftarrow>ms. credit m k - debit m k)"
  by (simp add: accumulate_def foldl_apply_get)

lemma accumulate_distinct: "distinct (map fst (accumulate ms))"
  by (simp add: accumulate_def foldl_apply_distinct)

lemma accumulate_member:
  "(k, v) \<in> set (accumulate ms) \<Longrightarrow> v = (\<Sum>m\<leftarrow>ms. credit m k - debit m k)"
  using dict_get_member [OF accumulate_distinct, of k v ms 0] by (simp add: accumulate_get)

lemma same_location_cancels:
  "from_location m = to_location m \<Longrightarrow> credit m k - debit m k = 0"
  by (simp add: credit_def debit_def)

lemma collect_rows_all_zero:
  "\<forall>x \<in> set b. snd x = 0 \<Longrightarrow> collect_rows pd ld b = Inr []"
  by (induction b) auto

text \<open>
  Claim C10. A movement whose source and destination are the same leaves every entry of the
  balance dictionary at the value it had: the debit and the credit cancel. A ledger made of
  such movements only accumulates zeros everywhere, and its report is produced and empty.
\<close>

theorem same_location_nets_zero:
  "(from_location m = to_location m \<longrightarrow>
      (\<forall>key. dict_get (apply_movement balance m) key 0 = dict_get balance key 0)) \<and>
   ((\<forall>m \<in> set ms. from_location m = to_location m) \<longrightarrow>
      (\<forall>x \<in> set (accumulate ms). snd x = 0) \<and>
      report_data ms ps ls = Inr [])"
proof (intro conjI impI allI)
  fix key
  assume "from_location m = to_location m"
  then have "credit m key - debit m key = 0" by (rule same_location_cancels)
  then show "dict_get (apply_movement balance m) key 0 = dict_get balance key 0"
    by (simp add: apply_movement_get)
next
  assume a: "\<forall>m \<in> set ms. from_location m = to_location m"
  show z: "\<forall>x \<in> set (accumulate ms). snd x = 0"
  proof
    fix x assume x: "x \<in> set (accumulate ms)"
    obtain k v where kv: "x = (k, v)" by (cases x)
    have "(\<Sum>m\<leftarrow>ms. credit m k - debit m k) = (\<Sum>m\<leftarrow>ms. 0)"
      using a by (intro arg_cong [where f = sum_list] map_cong refl) (simp add: same_location_cancels)
    with accumulate_member [of k v ms] x kv show "snd x = 0" by simp
  qed
  then have "collect_rows (product_dict ps) (location_dict ls) (accumulate ms) = Inr []"
    by (rule collect_rows_all_zero)
  then show "report_data ms ps ls = Inr []"
    by (simp add: report_data_def)
qed

subsection \<open>Balance report: keys and rows\<close>

lemma split_sep_ne: "split_sep c s \<noteq> []"
  by (induction s) (auto split: list.splits)

lemma split_sep_no_sep: "c \<notin> set s \<Longrightarrow> split_sep c s = [s]"
  by (induction s) auto

lemma split_sep_append: "c \<notin> set p \<Longrightarrow> split_sep c (p @ c # l) = p # split_sep c l"
  by (induction p) (auto split: list.splits simp: split_sep_ne)

lemma split_sep_one: "split_sep c s = [b] \<Longrightarrow> s = b \<and> c \<notin> set b"
proof (induction s arbitrary: b)
  case Nil
  then show ?case by simp
next
  case (Cons x xs)
  show ?case
  proof (cases "x = c")
    case True
    with Cons.prems show ?thesis by (simp add: split_sep_ne)
  next
    case False
    obtain w ws where w: "split_sep c xs = w # ws"
      using split_sep_ne [of c xs] by (cases "split_sep c xs") auto
    with Cons.prems False have "ws = []" "b = x # w" by simp_all
    with w Cons.IH [of w] False show ?thesis by simp
  qed
qed

lemma split_sep_two:
  "split_sep c s = [a, b] \<Longrightarrow> s = a @ c # b \<and> c \<notin> set a \<and> c \<notin> set b"
proof (induction s arbitrary: a)
  case Nil
  then show ?case by simp
next
  case (Cons x xs)
  show ?case
  proof (cases "x = c")
    case True
    with Cons.prems have "a = []" "split_sep c xs = [b]" by simp_all
    with split_sep_one [of c xs b] True show ?thesis by simp
  next
    case False
    obtain w ws where w: "split_sep c xs = w # ws"
      using split_sep_ne [of c xs] by (cases "split_sep c xs") auto
    with Cons.prems False have "ws = [b]" "a = x # w" by simp_all
    with w Cons.IH [of w] False show ?thesis by simp
  qed
qed

lemma split_balance_key:
  "no_bar p \<Longrightarrow> no_bar l \<Longrightarrow> split_sep CHR ''|'' (balance_key p l) = [p, l]"
  by (simp add: no_bar_def balance_key_def split_sep_append split_sep_no_sep)

lemma split_two_balance_key:
  "split_sep CHR ''|'' key = [p, l] \<Longrightarrow> key = balance_key p l \<and> no_bar p \<and> no_bar l"
  using split_sep_two [of "CHR ''|''" key p l] by (simp add: no_bar_def balance_key_def)

lemma balance_key_inject:
  assumes "no_bar p" and "no_bar p' \<or> no_bar l"
    and "balance_key p' l' = balance_key p l"
  shows "p' = p \<and> l' = l"
proof -
  let ?c = "CHR ''|''"
  from assms(3) have eq: "p' @ ?c # l' = p @ ?c # l" by (simp add: balance_key_def)
  then obtain us where us: "(p' = p @ us \<and> us @ ?c # l' = ?c # l) \<or>
      (p' @ us = p \<and> ?c # l' = us @ ?c # l)"
    by (auto simp: append_eq_append_conv2)
  show ?thesis
  proof (cases us)
    case Nil
    with us show ?thesis by auto
  next
    case (Cons u us')
    from us show ?thesis
    proof
      assume a: "p' = p @ us \<and> us @ ?c # l' = ?c # l"
      with Cons have "u = ?c" "us' @ ?c # l' = l" by simp_all
      with a Cons have "?c \<in> set p'" "?c \<in> set l" by auto
      with assms(2) show ?thesis by (simp add: no_bar_def)
    next
      assume a: "p' @ us = p \<and> ?c # l' = us @ ?c # l"
      with Cons have "u = ?c" by simp
      with a Cons have "?c \<in> set p" by auto
      with assms(1) show ?thesis by (simp add: no_bar_def)
    qed
  qed
qed

lemma collect_rows_Inr_iff:
  "collect_rows pd ld b = Inr rows \<longleftrightarrow>
     (\<forall>x \<in> set b. snd x \<noteq> 0 \<longrightarrow> length (split_sep CHR ''|'' (fst x)) = 2) \<and>
     rows = map (row_of pd ld) (filter (\<lambda>x. snd x \<noteq> 0) b)"
proof (induction b arbitrary: rows)
  case Nil
  then show ?case by auto
next
  case (Cons x b)
  obtain key q where x: "x = (key, q)" by (cases x)
  show ?case
  proof (cases "q = 0")
    case True
    with x Cons.IH show ?thesis by simp
  next
    case False
    show ?thesis
    proof (cases "length (split_sep CHR ''|'' key) = 2")
      case two: True
      then obtain p l where pl: "split_sep CHR ''|'' key = [p, l]"
        by (cases "split_sep CHR ''|'' key" rule: list.exhaust)
          (auto simp: length_Suc_conv Suc_length_conv numeral_2_eq_2)
      have r: "row_of pd ld (key, q) =
          \<lparr>r_product_id = p, r_product_name = dict_get pd p ''Unknown'',
           r_location_id = l, r_location_name = dict_get ld l ''Unknown'', r_qty = q\<rparr>"
        by (simp add: row_of_def pl)
      show ?thesis
      proof (cases "collect_rows pd ld b")
        case (Inl e)
        with Cons.IH [of "map (row_of pd ld) (filter (\<lambda>x. snd x \<noteq> 0) b)"]
        have "\<not> (\<forall>x \<in> set b. snd x \<noteq> 0 \<longrightarrow> length (split_sep CHR ''|'' (fst x)) = 2)"
          by simp
        with Inl x False pl show ?thesis by auto
      next
        case (Inr rs)
        with Cons.IH [of rs] x False pl two r show ?thesis by auto
      qed
    next
      case nottwo: False
      then have "collect_rows pd ld ((key, q) # b) = Inl ValueError"
        using False
        by (cases "split_sep CHR ''|'' key" rule: list.exhaust)
          (auto split: list.splits)
      with x nottwo False show ?thesis by auto
    qed
  qed
qed

subsection \<open>Balance report: order of the rows\<close>

lemma row_key_le: "row_key a \<le> row_key b \<longleftrightarrow> name_order a b"
  by (auto simp: row_key_def name_order_def)

lemma accumulate_keys:
  "k \<in> fst ` set (accumulate ms) \<longleftrightarrow>
     (\<exists>m \<in> set ms.
        (truthy (from_location m) \<and> balance_key (m_product_id m) (the (from_location m)) = k) \<or>
        (truthy (to_location m) \<and> balance_key (m_product_id m) (the (to_location m)) = k))"
  by (simp add: accumulate_def foldl_apply_keys)

lemma bar_free_keys:
  assumes "bar_free ms" and "k \<in> fst ` set (accumulate ms)"
  shows "\<exists>p l. k = balance_key p l \<and> no_bar p \<and> no_bar l"
proof -
  from assms(2) obtain m where m: "m \<in> set ms"
    and k: "(truthy (from_location m) \<and> balance_key (m_product_id m) (the (from_location m)) = k) \<or>
            (truthy (to_location m) \<and> balance_key (m_product_id m) (the (to_location m)) = k)"
    by (auto simp: accumulate_keys)
  from assms(1) m have b: "no_bar (m_product_id m)" "no_bar_opt (from_location m)"
    "no_bar_opt (to_location m)"
    by (simp_all add: bar_free_def list_all_iff)
  from k show ?thesis
  proof
    assume a: "truthy (from_location m) \<and> balance_key (m_product_id m) (the (from_location m)) = k"
    then obtain l where "from_location m = Some l" by (auto simp: truthy_def split: option.splits)
    with a b show ?thesis by (auto simp: no_bar_opt_def)
  next
    assume a: "truthy (to_location m) \<and> balance_key (m_product_id m) (the (to_location m)) = k"
    then obtain l where "to_location m = Some l" by (auto simp: truthy_def split: option.splits)
    with a b show ?thesis by (auto simp: no_bar_opt_def)
  qed
qed

lemma bar_free_report_returns:
  assumes "bar_free ms"
  shows "report_data ms ps ls =
    Inr (sort_key row_key (map (row_of (product_dict ps) (location_dict ls))
      (filter (\<lambda>x. snd x \<noteq> 0) (accumulate ms))))"
proof -
  have "\<forall>x \<in> set (accumulate ms). snd x \<noteq> 0 \<longrightarrow> length (split_sep CHR ''|'' (fst x)) = 2"
  proof (intro ballI impI)
    fix x assume "x \<in> set (accumulate ms)"
    then have "fst x \<in> fst ` set (accumulate ms)" by simp
    from bar_free_keys [OF assms this] obtain p l
      where "fst x = balance_key p l" "no_bar p" "no_bar l" by blast
    then show "length (split_sep CHR ''|'' (fst x)) = 2" by (simp add: split_balance_key)
  qed
  then have "collect_rows (product_dict ps) (location_dict ls) (accumulate ms) =
      Inr (map (row_of (product_dict ps) (location_dict ls))
        (filter (\<lambda>x. snd x \<noteq> 0) (accumulate ms)))"
    by (simp add: collect_rows_Inr_iff)
  then show ?thesis by (simp add: report_data_def)
qed

lemma report_data_Inr:
  assumes "report_data ms ps ls = Inr rows"
  shows "rows = sort_key row_key (map (row_of (product_dict ps) (location_dict ls))
      (filter (\<lambda>x. snd x \<noteq> 0) (accumulate ms)))"
proof -
  from assms obtain rs where rs: "collect_rows (product_dict ps) (location_dict ls) (accumulate ms) = Inr rs"
    and rows: "rows = sort_key row_key rs"
    by (auto simp: report_data_def split: sum.splits)
  from rs have "rs = map (row_of (product_dict ps) (location_dict ls))
      (filter (\<lambda>x. snd x \<noteq> 0) (accumulate ms))"
    by (simp add: collect_rows_Inr_iff)
  with rows show ?thesis by simp
qed

text \<open>
  Claim C6. Every report that is produced is sorted ascending by the pair (product name,
  location name): of two rows in sequence the first has the smaller product name, or the
  same product name and a location name that is not greater, strings compared
  lexicographically by character code, so case matters. The report is produced for every
  ledger whose identifiers do not contain the separator.
\<close>

theorem report_sorted_by_names:
  "(report_data ms ps ls = Inr rows \<longrightarrow>
      sorted (map row_key rows) \<and> sorted_wrt name_order rows) \<and>
   (bar_free ms \<longrightarrow> (\<exists>rows. report_data ms ps ls = Inr rows))"
proof (intro conjI impI)
  assume "report_data ms ps ls = Inr rows"
  then obtain rs where "rows = sort_key row_key rs"
    by (auto simp: report_data_def split: sum.splits)
  then show s: "sorted (map row_key rows)" by (simp add: sorted_sort_key)
  then show "sorted_wrt name_order rows"
    by (simp add: sorted_map row_key_le [abs_def])
next
  assume "bar_free ms"
  then show "\<exists>rows. report_data ms ps ls = Inr rows"
    by (simp add: bar_free_report_returns)
qed

subsection \<open>Balance report: rows and net quantities\<close>

lemma credit_balance_key:
  assumes "no_bar p" and "no_bar (m_product_id m) \<or> no_bar l"
  shows "credit m (balance_key p l) =
    (if m_product_id m = p \<and> to_location m = Some l \<and> l \<noteq> [] then qty m else 0)"
proof (cases "to_location m")
  case None
  then show ?thesis by (simp add: credit_def truthy_def)
next
  case (Some l')
  have "balance_key (m_product_id m) l' = balance_key p l \<longleftrightarrow> m_product_id m = p \<and> l' = l"
    using balance_key_inject [OF assms, of l'] by auto
  with Some show ?thesis by (auto simp: credit_def truthy_def)
qed

lemma debit_balance_key:
  assumes "no_bar p" and "no_bar (m_product_id m) \<or> no_bar l"
  shows "debit m (balance_key p l) =
    (if m_product_id m = p \<and> from_location m = Some l \<and> l \<noteq> [] then qty m else 0)"
proof (cases "from_location m")
  case None
  then show ?thesis by (simp add: debit_def truthy_def)
next
  case (Some l')
  have "balance_key (m_product_id m) l' = balance_key p l \<longleftrightarrow> m_product_id m = p \<and> l' = l"
    using balance_key_inject [OF assms, of l'] by auto
  with Some show ?thesis by (auto simp: debit_def truthy_def)
qed

lemma accumulate_net:
  assumes "no_bar p" and "no_bar l \<or> (\<forall>m \<in> set ms. no_bar (m_product_id m))"
  shows "dict_get (accumulate ms) (balance_key p l) 0 = net ms p l"
proof -
  have "\<And>m. m \<in> set ms \<Longrightarrow> no_bar (m_product_id m) \<or> no_bar l"
    using assms(2) by auto
  then have "(\<Sum>m\<leftarrow>ms. credit m (balance_key p l) - debit m (balance_key p l)) = net ms p l"
    unfolding net_def
    by (intro arg_cong [where f = sum_list] map_cong refl)
      (simp add: credit_balance_key [OF assms(1)] debit_balance_key [OF assms(1)])
  then show ?thesis by (simp add: accumulate_get)
qed

lemma report_row_net:
  assumes "report_data ms ps ls = Inr rows" and "r \<in> set rows"
  shows "no_bar (r_product_id r) \<and> no_bar (r_location_id r) \<and>
         r_qty r = net ms (r_product_id r) (r_location_id r) \<and> r_qty r \<noteq> 0 \<and>
         r_product_name r = dict_get (product_dict ps) (r_product_id r) ''Unknown'' \<and>
         r_location_name r = dict_get (location_dict ls) (r_location_id r) ''Unknown''"
proof -
  let ?pd = "product_dict ps" and ?ld = "location_dict ls"
  from assms(1) obtain rs where rs: "collect_rows ?pd ?ld (accumulate ms) = Inr rs"
    and rows: "rows = sort_key row_key rs"
    by (auto simp: report_data_def split: sum.splits)
  from rs have two: "\<forall>x \<in> set (accumulate ms). snd x \<noteq> 0 \<longrightarrow> length (split_sep CHR ''|'' (fst x)) = 2"
    and rs_eq: "rs = map (row_of ?pd ?ld) (filter (\<lambda>x. snd x \<noteq> 0) (accumulate ms))"
    by (simp_all add: collect_rows_Inr_iff)
  from assms(2) rows rs_eq obtain x where x: "x \<in> set (accumulate ms)" "snd x \<noteq> 0"
    "r = row_of ?pd ?ld x"
    by auto
  from two x have "length (split_sep CHR ''|'' (fst x)) = 2" by simp
  then obtain p l where pl: "split_sep CHR ''|'' (fst x) = [p, l]"
    by (cases "split_sep CHR ''|'' (fst x)" rule: list.exhaust)
      (auto simp: length_Suc_conv Suc_length_conv numeral_2_eq_2)
  from split_two_balance_key [OF pl] have k: "fst x = balance_key p l" "no_bar p" "no_bar l"
    by simp_all
  from x(3) pl have r: "r_product_id r = p" "r_location_id r = l" "r_qty r = snd x"
    "r_product_name r = dict_get ?pd p ''Unknown''"
    "r_location_name r = dict_get ?ld l ''Unknown''"
    by (simp_all add: row_of_def)
  from x(1) k(1) have "(balance_key p l, snd x) \<in> set (accumulate ms)"
    by (metis prod.collapse)
  from dict_get_member [OF accumulate_distinct this, of 0]
  have "snd x = net ms p l" using accumulate_net [of p l ms] k by simp
  with r k x(2) show ?thesis by simp
qed

lemma bar_free_report_complete:
  assumes "bar_free ms" and "report_data ms ps ls = Inr rows" and "net ms p l \<noteq> 0"
  shows "\<exists>r \<in> set rows. r_product_id r = p \<and> r_location_id r = l \<and> r_qty r = net ms p l"
proof -
  let ?pd = "product_dict ps" and ?ld = "location_dict ls"
  let ?g = "\<lambda>m. (if m_product_id m = p \<and> to_location m = Some l \<and> l \<noteq> [] then qty m else 0) -
        (if m_product_id m = p \<and> from_location m = Some l \<and> l \<noteq> [] then qty m else 0)"
  have "\<exists>m \<in> set ms. ?g m \<noteq> 0"
  proof (rule ccontr)
    assume "\<not> (\<exists>m \<in> set ms. ?g m \<noteq> 0)"
    then have "\<forall>m \<in> set ms. ?g m = 0" by blast
    then have "(\<Sum>m\<leftarrow>ms. ?g m) = (\<Sum>m\<leftarrow>ms. 0)"
      by (intro arg_cong [where f = sum_list] map_cong refl) simp
    with assms(3) show False by (simp add: net_def)
  qed
  then obtain m where m: "m \<in> set ms" "?g m \<noteq> 0" by blast
  then have mp: "m_product_id m = p" and ne: "l \<noteq> []"
    and loc: "to_location m = Some l \<or> from_location m = Some l"
    by (auto split: if_splits)
  from assms(1) m(1) have "no_bar (m_product_id m)" "no_bar_opt (from_location m)"
    "no_bar_opt (to_location m)"
    by (simp_all add: bar_free_def list_all_iff)
  with mp loc have nb: "no_bar p" "no_bar l" by (auto simp: no_bar_opt_def)
  let ?k = "balance_key p l"
  from m(1) mp loc ne have "?k \<in> fst ` set (accumulate ms)"
    unfolding accumulate_keys by (auto simp: truthy_def intro!: bexI [of _ m])
  then have "(?k, dict_get (accumulate ms) ?k 0) \<in> set (accumulate ms)"
    by (rule dict_get_present)
  with accumulate_net [of p l ms] nb have mem: "(?k, net ms p l) \<in> set (accumulate ms)"
    by simp
  from assms(2) have "rows = sort_key row_key (map (row_of ?pd ?ld)
      (filter (\<lambda>x. snd x \<noteq> 0) (accumulate ms)))"
    by (rule report_data_Inr)
  with mem assms(3) have "row_of ?pd ?ld (?k, net ms p l) \<in> set rows" by auto
  moreover have "r_product_id (row_of ?pd ?ld (?k, net ms p l)) = p"
    "r_location_id (row_of ?pd ?ld (?k, net ms p l)) = l"
    "r_qty (row_of ?pd ?ld (?k, net ms p l)) = net ms p l"
    using nb by (simp_all add: row_of_def split_balance_key)
  ultimately show ?thesis by blast
qed

lemma report_rows_distinct:
  assumes "report_data ms ps ls = Inr rows"
  shows "distinct (map row_ids rows)"
proof -
  let ?pd = "product_dict ps" and ?ld = "location_dict ls"
  let ?xs = "filter (\<lambda>x. snd x \<noteq> 0) (accumulate ms)"
  from assms obtain rs where rs: "collect_rows ?pd ?ld (accumulate ms) = Inr rs"
    and rows: "rows = sort_key row_key rs"
    by (auto simp: report_data_def split: sum.splits)
  from rs have two: "\<forall>x \<in> set (accumulate ms). snd x \<noteq> 0 \<longrightarrow> length (split_sep CHR ''|'' (fst x)) = 2"
    and rs_eq: "rs = map (row_of ?pd ?ld) ?xs"
    by (simp_all add: collect_rows_Inr_iff)
  have key: "\<And>x. x \<in> set ?xs \<Longrightarrow>
      fst x = balance_key (fst (row_ids (row_of ?pd ?ld x))) (snd (row_ids (row_of ?pd ?ld x)))"
  proof -
    fix x assume "x \<in> set ?xs"
    with two have "length (split_sep CHR ''|'' (fst x)) = 2" by simp
    then obtain p l where pl: "split_sep CHR ''|'' (fst x) = [p, l]"
      by (cases "split_sep CHR ''|'' (fst x)" rule: list.exhaust)
        (auto simp: length_Suc_conv Suc_length_conv numeral_2_eq_2)
    from split_two_balance_key [OF pl] pl
    show "fst x = balance_key (fst (row_ids (row_of ?pd ?ld x))) (snd (row_ids (row_of ?pd ?ld x)))"
      by (simp add: row_ids_def row_of_def)
  qed
  have d: "distinct (map fst ?xs)"
    using accumulate_distinct [of ms] by (simp add: distinct_map_filter)
  then have inj_fst: "inj_on fst (set ?xs)" and dxs: "distinct ?xs"
    by (simp_all add: distinct_map)
  have "inj_on (\<lambda>x. row_ids (row_of ?pd ?ld x)) (set ?xs)"
  proof (rule inj_onI)
    fix x y assume "x \<in> set ?xs" "y \<in> set ?xs"
      and "row_ids (row_of ?pd ?ld x) = row_ids (row_of ?pd ?ld y)"
    with key [of x] key [of y] have "fst x = fst y" by simp
    with inj_fst \<open>x \<in> set ?xs\<close> \<open>y \<in> set ?xs\<close> show "x = y" by (auto dest: inj_onD)
  qed
  with dxs have "distinct (map (\<lambda>x. row_ids (row_of ?pd ?ld x)) ?xs)"
    by (simp add: distinct_map)
  then have "distinct (map row_ids rs)" by (simp add: rs_eq comp_def)
  then have "distinct rs" and "inj_on row_ids (set rs)"
    by (simp_all add: distinct_map)
  then show ?thesis by (simp add: rows distinct_map)
qed

text \<open>
  A pair whose net quantity is zero has no row in any report that is produced, whatever the
  identifiers.
\<close>

lemma report_zero_net_absent:
  assumes "report_data ms ps ls = Inr rows" and "net ms p l = 0"
  shows "(p, l) \<notin> row_ids ` set rows"
proof
  assume "(p, l) \<in> row_ids ` set rows"
  then obtain r where r: "r \<in> set rows" "r_product_id r = p" "r_location_id r = l"
    by (auto simp: row_ids_def)
  from report_row_net [OF assms(1) r(1)] r(2,3) assms(2) show False by auto
qed

text \<open>
  On a ledger whose identifiers do not contain the separator the report is produced and its
  rows are exactly the pairs with a non-zero net quantity, one row each, with that
  quantity.
\<close>

lemma report_without_bar:
  assumes "bar_free ms"
  shows "\<exists>rows. report_data ms ps ls = Inr rows \<and>
           distinct (map row_ids rows) \<and>
           (\<forall>r \<in> set rows. r_qty r = net ms (r_product_id r) (r_location_id r) \<and> r_qty r \<noteq> 0) \<and>
           (\<forall>p l. net ms p l \<noteq> 0 \<longrightarrow> (\<exists>r \<in> set rows. row_ids r = (p, l)))"
proof -
  from assms obtain rows where rows: "report_data ms ps ls = Inr rows"
    by (auto simp: bar_free_report_returns)
  have "distinct (map row_ids rows)"
    using rows by (rule report_rows_distinct)
  moreover have "\<forall>r \<in> set rows. r_qty r = net ms (r_product_id r) (r_location_id r) \<and> r_qty r \<noteq> 0"
    using report_row_net [OF rows] by blast
  moreover have "\<forall>p l. net ms p l \<noteq> 0 \<longrightarrow> (\<exists>r \<in> set rows. row_ids r = (p, l))"
  proof (intro allI impI)
    fix p l assume "net ms p l \<noteq> 0"
    from bar_free_report_complete [OF assms rows this]
    show "\<exists>r \<in> set rows. row_ids r = (p, l)" by (auto simp: row_ids_def)
  qed
  ultimately show ?thesis using rows by blast
qed

subsection \<open>Balance report: identifiers that contain the separator\<close>

lemmas eval_defs =
  add_product_def add_location_def add_movement_def load_data_def save_data_def
  form_get_def strip_def isspace_def truthy_def Let_def st_empty_def
  report_def report_data_def accumulate_def apply_movement_def balance_key_def
  product_dict_def location_dict_def row_key_def net_def

lemma bar_product_state:
  "st_bar_product =
     \<lparr>products_file = Some [\<lparr>product_id = ''P|1'', p_name = ''Pipe'', p_description = []\<rparr>],
      locations_file = Some [\<lparr>location_id = ''L1'', l_name = ''Shed'', l_address = []\<rparr>],
      movements_file = Some
        [\<lparr>movement_id = 1, timestamp = ''2024-01-01 10:00:00'', from_location = None,
          to_location = Some ''L1'', m_product_id = ''P|1'', qty = 10\<rparr>]\<rparr>"
  by (simp add: st_bar_product_def eval_defs)

text \<open>
  Claim C1, at a product identifier that contains the separator. The handlers accept the
  product \<^verbatim>\<open>P|1\<close> and a receipt of 10 at \<^verbatim>\<open>L1\<close>; the net quantity of that pair is
  10, and the report raises \<^verbatim>\<open>ValueError\<close> instead of yielding the row.
\<close>

theorem report_raises_on_bar_in_id:
  "net (load_data (movements_file st_bar_product)) ''P|1'' ''L1'' = 10 \<and>
   report st_bar_product = Inl ValueError"
  by (simp add: bar_product_state eval_defs)

lemma bar_collision_state:
  "st_bar_collision =
     \<lparr>products_file = Some
        [\<lparr>product_id = ''A|B'', p_name = ''Pipe'', p_description = []\<rparr>,
         \<lparr>product_id = ''A'', p_name = ''Bolt'', p_description = []\<rparr>],
      locations_file = Some
        [\<lparr>location_id = ''C'', l_name = ''Shed'', l_address = []\<rparr>,
         \<lparr>location_id = ''B|C'', l_name = ''Yard'', l_address = []\<rparr>],
      movements_file = Some
        [\<lparr>movement_id = 1, timestamp = ''2024-01-01 10:00:00'', from_location = None,
          to_location = Some ''C'', m_product_id = ''A|B'', qty = 5\<rparr>,
         \<lparr>movement_id = 2, timestamp = ''2024-01-02 10:00:00'', from_location = Some ''B|C'',
          to_location = None, m_product_id = ''A'', qty = 5\<rparr>]\<rparr>"
  by (simp add: st_bar_collision_def eval_defs)

text \<open>
  Claim C2, at two pairs whose keys coincide. The pairs (\<^verbatim>\<open>A|B\<close>, \<^verbatim>\<open>C\<close>) and
  (\<^verbatim>\<open>A\<close>, \<^verbatim>\<open>B|C\<close>) have the net quantities 5 and -5; both are accumulated under the key
  \<^verbatim>\<open>A|B|C\<close>, which sums to zero, and the report has a row for neither.
\<close>

theorem report_drops_colliding_pairs:
  "net (load_data (movements_file st_bar_collision)) ''A|B'' ''C'' = 5 \<and>
   net (load_data (movements_file st_bar_collision)) ''A'' ''B|C'' = - 5 \<and>
   accumulate (load_data (movements_file st_bar_collision)) = [(''A|B|C'', 0)] \<and>
   report st_bar_collision = Inr []"
  by (simp add: bar_collision_state eval_defs)

subsection \<open>Balance report: examples\<close>

lemma report_example:
  "report_data example_movements ps ls =
     Inr [\<lparr>r_product_id = ''P1'',
           r_product_name = dict_get (product_dict ps) ''P1'' ''Unknown'',
           r_location_id = ''L1'',
           r_location_name = dict_get (location_dict ls) ''L1'' ''Unknown'', r_qty = 6\<rparr>,
          \<lparr>r_product_id = ''P1'',
           r_product_name = dict_get (product_dict ps) ''P1'' ''Unknown'',
           r_location_id = ''L2'',
           r_location_name = dict_get (location_dict ls) ''L2'' ''Unknown'', r_qty = 4\<rparr>] \<or>
   report_data example_movements ps ls =
     Inr [\<lparr>r_product_id = ''P1'',
           r_product_name = dict_get (product_dict ps) ''P1'' ''Unknown'',
           r_location_id = ''L2'',
           r_location_name = dict_get (location_dict ls) ''L2'' ''Unknown'', r_qty = 4\<rparr>,
          \<lparr>r_product_id = ''P1'',
           r_product_name = dict_get (product_dict ps) ''P1'' ''Unknown'',
           r_location_id = ''L1'',
           r_location_name = dict_get (location_dict ls) ''L1'' ''Unknown'', r_qty = 6\<rparr>]"
  by (simp add: example_movements_def report_data_def accumulate_def apply_movement_def
      balance_key_def truthy_def Let_def row_key_def)

lemma fixture_report: "report_data fixture_movements fixture_products fixture_locations = Inr fixture_rows"
  by (simp add: fixture_movements_def fixture_products_def fixture_locations_def fixture_rows_def
      report_data_def accumulate_def apply_movement_def balance_key_def truthy_def Let_def
      row_key_def product_dict_def location_dict_def)

theorem report_sorted_by_names_witness:
  "bar_free fixture_movements \<and>
   report_data fixture_movements fixture_products fixture_locations = Inr fixture_rows \<and>
   sorted_wrt name_order fixture_rows \<and>
   map row_key fixture_rows =
     [(''Widget'', ''Alpha''), (''Widget'', ''Alpha''), (''Widget'', ''Zeta''), (''apple'', ''Zeta'')]"
proof -
  have b: "bar_free fixture_movements"
    by (simp add: bar_free_def fixture_movements_def no_bar_def no_bar_opt_def)
  from report_sorted_by_names [of fixture_movements fixture_products fixture_locations fixture_rows]
    fixture_report
  have "sorted_wrt name_order fixture_rows" by blast
  moreover have "map row_key fixture_rows =
     [(''Widget'', ''Alpha''), (''Widget'', ''Alpha''), (''Widget'', ''Zeta''), (''apple'', ''Zeta'')]"
    by (simp add: fixture_rows_def row_key_def)
  ultimately show ?thesis using b fixture_report by blast
qed

theorem same_location_nets_zero_witness:
  "list_all (\<lambda>m. from_location m = to_location m) same_place_movements \<and>
   accumulate same_place_movements = [(''P1|L1'', 0), (''P|1|L|2'', 0)] \<and>
   report_data same_place_movements fixture_products fixture_locations = Inr [] \<and>
   dict_get (apply_movement [(''P1|L1'', 6)] (hd same_place_movements)) ''P1|L1'' 0 = 6"
proof -
  have a: "\<forall>m \<in> set same_place_movements. from_location m = to_location m"
    by (simp add: same_place_movements_def)
  have h: "from_location (hd same_place_movements) = to_location (hd same_place_movements)"
    by (simp add: same_place_movements_def)
  note t = same_location_nets_zero [of "hd same_place_movements" "[(''P1|L1'', 6)]"
      same_place_movements fixture_products fixture_locations]
  from t a have 1: "report_data same_place_movements fixture_products fixture_locations = Inr []"
    by blast
  from t h have "dict_get (apply_movement [(''P1|L1'', 6)] (hd same_place_movements)) ''P1|L1'' 0 =
      dict_get [(''P1|L1'', 6)] ''P1|L1'' 0"
    by blast
  then have 2: "dict_get (apply_movement [(''P1|L1'', 6)] (hd same_place_movements)) ''P1|L1'' 0 = 6"
    by simp
  have 3: "accumulate same_place_movements = [(''P1|L1'', 0), (''P|1|L|2'', 0)]"
    by (simp add: same_place_movements_def accumulate_def apply_movement_def balance_key_def
        truthy_def Let_def)
  from a 1 2 3 show ?thesis unfolding list_all_iff by blast
qed

subsection \<open>Flat-record store: writing and reading the text of a file\<close>

declare digits.simps [simp del]

lemma hex_value_hex_digit: "k < 16 \<Longrightarrow> hex_value (hex_digit k) = Some k"
  by (auto simp: hex_value_def hex_digit_def Let_def)

lemma decode_escape:
  "decode_uXXXX (CHR ''0'' # CHR ''0'' # hex_digit (of_char c div 16) # hex_digit (of_char c mod 16) # s) =
     Ok c"
proof -
  have lt: "(of_char c :: nat) < 256" by simp
  then have d: "(of_char c :: nat) div 16 < 16" by arith
  have m: "(of_char c :: nat) mod 16 < 16" by simp
  have z: "hex_value CHR ''0'' = Some 0" by (simp add: hex_value_def)
  have "(of_char c :: nat) div 16 * 16 + of_char c mod 16 = of_char c" by simp
  then show ?thesis
    using lt by (simp add: decode_uXXXX_def z hex_value_hex_digit [OF d] hex_value_hex_digit [OF m])
qed

lemma scanstring_escape: "scanstring acc (escape_char c @ s) = scanstring (acc @ [c]) s"
proof -
  consider "c = CHR 0x22" | "c = CHR 0x5C" | "c = CHR 0x0A" | "c = CHR 0x0D" | "c = CHR 0x09"
    | "c = CHR 0x08" | "c = CHR 0x0C"
    | "c \<notin> {CHR 0x22, CHR 0x5C, CHR 0x0A, CHR 0x0D, CHR 0x09, CHR 0x08, CHR 0x0C}"
      "32 \<le> (of_char c :: nat) \<and> (of_char c :: nat) \<le> 126"
    | "c \<notin> {CHR 0x22, CHR 0x5C, CHR 0x0A, CHR 0x0D, CHR 0x09, CHR 0x08, CHR 0x0C}"
      "\<not> (32 \<le> (of_char c :: nat) \<and> (of_char c :: nat) \<le> 126)"
    by blast
  then show ?thesis
  proof cases
    case 8
    then show ?thesis by (simp add: escape_char_def)
  next
    case 9
    then have "escape_char c = [CHR 0x5C, CHR ''u'', CHR ''0'', CHR ''0'',
            hex_digit (of_char c div 16), hex_digit (of_char c mod 16)]"
      by (simp add: escape_char_def)
    then show ?thesis by (simp add: decode_escape)
  qed (simp_all add: escape_char_def unescape_def)
qed

lemma scanstring_dump:
  "scanstring acc (concat (map escape_char s) @ CHR 0x22 # rest) = Ok (acc @ s, rest)"
proof (induction s arbitrary: acc)
  case Nil
  then show ?case by simp
next
  case (Cons c s)
  have "scanstring acc (concat (map escape_char (c # s)) @ CHR 0x22 # rest) =
      scanstring acc (escape_char c @ (concat (map escape_char s) @ CHR 0x22 # rest))"
    by simp
  also have "\<dots> = scanstring (acc @ [c]) (concat (map escape_char s) @ CHR 0x22 # rest)"
    by (rule scanstring_escape)
  also have "\<dots> = Ok ((acc @ [c]) @ s, rest)" by (rule Cons.IH)
  finally show ?case by simp
qed

lemma char_of_48: "char_of (48 :: nat) = CHR ''0''"
proof -
  have "of_char (char_of (48 :: nat)) = (of_char CHR ''0'' :: nat)" by simp
  then show ?thesis by (simp only: of_char_eq_iff)
qed

lemma is_digit_digit_char: "n < 10 \<Longrightarrow> is_digit (digit_char n)"
  by (simp add: is_digit_def digit_char_def)

lemma digit_char_value: "n < 10 \<Longrightarrow> (of_char (digit_char n) :: nat) - 48 = n"
  by (simp add: digit_char_def)

lemma digits_all_digit: "c \<in> set (digits n) \<Longrightarrow> is_digit c"
proof (induction n arbitrary: c rule: digits.induct)
  case (1 n)
  show ?case
  proof (cases "n < 10")
    case True
    with "1.prems" show ?thesis by (simp add: digits.simps [of n] is_digit_digit_char)
  next
    case False
    with "1.prems" have "c \<in> set (digits (n div 10)) \<or> c = digit_char (n mod 10)"
      by (auto simp: digits.simps [of n])
    then show ?thesis
    proof
      assume "c \<in> set (digits (n div 10))"
      with "1.IH" False show ?thesis by simp
    next
      assume "c = digit_char (n mod 10)"
      then show ?thesis by (simp add: is_digit_digit_char)
    qed
  qed
qed

lemma digits_value_snoc: "digits_value (ds @ [c]) = 10 * digits_value ds + (of_char c - 48)"
  by (simp add: digits_value_def)

lemma digits_value_digits: "digits_value (digits n) = n"
proof (induction n rule: digits.induct)
  case (1 n)
  show ?case
  proof (cases "n < 10")
    case True
    then show ?thesis by (simp add: digits.simps [of n] digits_value_def digit_char_value)
  next
    case False
    with "1.IH" show ?thesis
      by (simp add: digits.simps [of n] digits_value_snoc digit_char_value)
  qed
qed

lemma digits_not_Nil: "digits n \<noteq> []"
  by (simp add: digits.simps [of n])

lemma hd_digits_zero: "hd (digits n) = CHR ''0'' \<longleftrightarrow> n = 0"
proof (induction n rule: digits.induct)
  case (1 n)
  show ?case
  proof (cases "n < 10")
    case True
    have "digit_char n = CHR ''0'' \<longleftrightarrow> n = 0"
    proof
      assume "digit_char n = CHR ''0''"
      then have "(of_char (digit_char n) :: nat) = of_char CHR ''0''" by simp
      with True show "n = 0" by (simp add: digit_char_def)
    next
      assume "n = 0"
      then show "digit_char n = CHR ''0''" by (simp add: digit_char_def char_of_48)
    qed
    with True show ?thesis by (simp add: digits.simps [of n])
  next
    case False
    then have "hd (digits n) = hd (digits (n div 10))"
      by (simp add: digits.simps [of n] digits_not_Nil)
    with "1.IH" False show ?thesis by auto
  qed
qed

lemma digits_zero: "digits 0 = ''0''"
  by (simp add: digits.simps [of 0] digit_char_def char_of_48)

lemma delimited_not_number:
  assumes "delimited rest"
  shows "\<not> is_frac rest" and "\<not> is_exp rest" and "takeWhile is_digit (ds @ rest) = takeWhile is_digit ds"
proof -
  show "\<not> is_frac rest" using assms
    by (cases rest) (auto simp: delimited_def is_frac_def split: list.splits)
  show "\<not> is_exp rest" using assms
    by (cases rest) (auto simp: delimited_def is_exp_def)
  have "takeWhile is_digit rest = []" using assms
    by (cases rest) (auto simp: delimited_def is_digit_def)
  then show "takeWhile is_digit (ds @ rest) = takeWhile is_digit ds"
    by (induction ds) auto
qed

lemma takeWhile_digits: "takeWhile is_digit (digits n) = digits n"
  by (simp add: digits_all_digit)

lemma hd_digits_is_digit: "is_digit (hd (digits n))"
  using digits_not_Nil [of n] digits_all_digit [of "hd (digits n)" n] by simp

lemma not_digit_minus: "\<not> is_digit CHR ''-''"
  by (simp add: is_digit_def)

lemma match_number_digits:
  assumes "delimited rest"
  shows "match_number (digits n @ rest) = Ok (JInt (int n), rest)"
proof -
  let ?s = "digits n @ rest"
  have hd: "hd ?s = hd (digits n)" using digits_not_Nil [of n] by simp
  have ne: "?s \<noteq> []" using digits_not_Nil [of n] by simp
  have nostart: "\<not> starts CHR ''-'' ?s"
    using hd hd_digits_is_digit [of n] not_digit_minus ne
    by (cases ?s) (auto simp: starts_def)
  show ?thesis
  proof (cases "n = 0")
    case True
    then have "?s = CHR ''0'' # rest" by (simp add: digits_zero)
    then show ?thesis
      using delimited_not_number(1,2) [OF assms] True
      by (simp add: match_number_def starts_def is_digit_def digits_value_def)
  next
    case False
    then have nz: "hd ?s \<noteq> CHR ''0''" using hd hd_digits_zero [of n] by simp
    have tw: "takeWhile is_digit ?s = digits n"
      using delimited_not_number(3) [OF assms, of "digits n"] by (simp add: takeWhile_digits)
    show ?thesis
      using nostart ne nz hd hd_digits_is_digit [of n] delimited_not_number(1,2) [OF assms]
      by (simp add: match_number_def Let_def tw digits_value_digits)
  qed
qed

lemma match_number_int_repr:
  assumes "delimited rest"
  shows "match_number (int_repr i @ rest) = Ok (JInt i, rest)"
proof (cases "i < 0")
  case False
  then show ?thesis using match_number_digits [OF assms, of "nat i"] by (simp add: int_repr_def)
next
  case True
  let ?n = "nat (- i)"
  let ?s = "digits ?n @ rest"
  from True have pos: "?n \<noteq> 0" by simp
  have hd: "hd ?s = hd (digits ?n)" using digits_not_Nil [of ?n] by simp
  have ne: "?s \<noteq> []" using digits_not_Nil [of ?n] by simp
  have nz: "hd ?s \<noteq> CHR ''0''" using hd hd_digits_zero [of ?n] pos by simp
  have tw: "takeWhile is_digit ?s = digits ?n"
    using delimited_not_number(3) [OF assms, of "digits ?n"] by (simp add: takeWhile_digits)
  have "match_number (CHR ''-'' # ?s) = Ok (JInt (- int ?n), rest)"
    using ne nz hd hd_digits_is_digit [of ?n] delimited_not_number(1,2) [OF assms]
    by (simp add: match_number_def Let_def starts_def tw digits_value_digits)
  with True show ?thesis by (simp add: int_repr_def)
qed

lemma int_repr_start: "\<exists>c r. int_repr i = c # r \<and> (c = CHR ''-'' \<or> is_digit c)"
proof (cases "i < 0")
  case True
  then show ?thesis by (simp add: int_repr_def)
next
  case False
  obtain c r where cr: "digits (nat i) = c # r"
    using digits_not_Nil [of "nat i"] by (cases "digits (nat i)") auto
  then have "is_digit c" using digits_all_digit [of c "nat i"] by simp
  with False cr show ?thesis by (simp add: int_repr_def)
qed

lemma scan_literal_int:
  assumes "delimited rest"
  shows "scan_literal (int_repr i @ rest) = Ok (JInt i, rest)"
proof -
  obtain c r where cr: "int_repr i = c # r" and c: "c = CHR ''-'' \<or> is_digit c"
    using int_repr_start by blast
  from c have "c \<noteq> CHR ''n''" "c \<noteq> CHR ''t''" "c \<noteq> CHR ''f''"
    by (auto simp: is_digit_def)
  then have "take 4 (int_repr i @ rest) \<noteq> ''null''" "take 4 (int_repr i @ rest) \<noteq> ''true''"
    "take 5 (int_repr i @ rest) \<noteq> ''false''"
    by (auto simp: cr take_Cons')
  then show ?thesis
    by (simp add: scan_literal_def match_number_int_repr [OF assms])
qed

lemma scan_literal_atoms:
  "scan_literal (''null'' @ rest) = Ok (JNull, rest)"
  "scan_literal (''true'' @ rest) = Ok (JBool True, rest)"
  "scan_literal (''false'' @ rest) = Ok (JBool False, rest)"
  by (simp_all add: scan_literal_def)

lemma int_repr_starts:
  "\<not> starts CHR 0x22 (int_repr i @ rest)" "\<not> starts CHR ''{'' (int_repr i @ rest)"
  "\<not> starts CHR ''['' (int_repr i @ rest)"
proof -
  obtain c r where cr: "int_repr i = c # r" and c: "c = CHR ''-'' \<or> is_digit c"
    using int_repr_start by blast
  from c have "c \<noteq> CHR 0x22" "c \<noteq> CHR ''{''" "c \<noteq> CHR ''[''"
    by (auto simp: is_digit_def)
  then show "\<not> starts CHR 0x22 (int_repr i @ rest)" "\<not> starts CHR ''{'' (int_repr i @ rest)"
    "\<not> starts CHR ''['' (int_repr i @ rest)"
    by (simp_all add: cr starts_def)
qed

lemma dumps_start: "\<exists>c r. dumps_at n v = c # r \<and> value_start c"
proof (cases v)
  case (JInt i)
  obtain c r where "int_repr i = c # r" "c = CHR ''-'' \<or> is_digit c"
    using int_repr_start by blast
  with JInt show ?thesis by (auto simp: value_start_def)
qed (auto simp: value_start_def dump_string_def)

lemma skip_ws_newline_indent:
  "value_start c \<Longrightarrow> skip_ws (newline_indent k @ c # r) = c # r"
proof -
  assume "value_start c"
  then have "\<not> is_ws c" by (auto simp: value_start_def is_ws_def is_digit_def)
  moreover have "\<forall>x \<in> set (newline_indent k). is_ws x"
    by (simp add: newline_indent_def is_ws_def)
  ultimately show ?thesis by (simp add: skip_ws_def dropWhile_append)
qed

lemma skip_ws_newline_indent_close:
  "c = CHR '']'' \<or> c = CHR ''}'' \<Longrightarrow> skip_ws (newline_indent k @ c # r) = c # r"
proof -
  assume "c = CHR '']'' \<or> c = CHR ''}''"
  then have "\<not> is_ws c" by (auto simp: is_ws_def)
  moreover have "\<forall>x \<in> set (newline_indent k). is_ws x"
    by (simp add: newline_indent_def is_ws_def)
  ultimately show ?thesis by (simp add: skip_ws_def dropWhile_append)
qed

subsection \<open>Flat-record store: what is written is read back\<close>

lemma delimited_simps [simp]:
  "delimited (newline_indent k @ s)" "delimited (CHR '','' # s)" "delimited []"
  by (simp_all add: delimited_def newline_indent_def)

lemma dumps_not_Nil: "dumps_at n v \<noteq> []"
  using dumps_start [of n v] by auto

lemma dump_items_start: "xs \<noteq> [] \<Longrightarrow> \<exists>c r. dump_items n xs = c # r \<and> value_start c"
proof (cases xs)
  case Nil
  assume "xs \<noteq> []"
  with Nil show ?thesis by simp
next
  case (Cons x xs')
  obtain c r where "dumps_at n x = c # r" "value_start c" using dumps_start by blast
  with Cons show ?thesis by auto
qed

lemma not_ws_comma: "skip_ws (CHR '','' # s) = CHR '','' # s"
  by (simp add: skip_ws_def is_ws_def)

lemma value_start_not_close: "value_start c \<Longrightarrow> c \<noteq> CHR '']'' \<and> c \<noteq> CHR ''}'' \<and> c \<noteq> CHR '',''"
  by (auto simp: value_start_def is_digit_def)

lemma scan_array_dump:
  assumes "xs \<noteq> []" and "\<forall>x \<in> set xs. reads_back x" and "length (dump_items n xs) < fuel"
  shows "scan_array fuel acc (dump_items n xs @ newline_indent m @ CHR '']'' # rest) =
           Ok (JArr (acc @ xs), rest)"
  using assms
proof (induction xs arbitrary: fuel acc)
  case Nil
  then show ?case by simp
next
  case (Cons x xs)
  from Cons.prems(3) obtain f where f: "fuel = Suc f" by (cases fuel) auto
  let ?close = "newline_indent m @ CHR '']'' # rest"
  let ?tail = "if xs = [] then ?close
               else CHR '','' # newline_indent n @ dump_items n xs @ ?close"
  have shape: "dump_items n (x # xs) @ ?close = dumps_at n x @ ?tail" by simp
  have del: "delimited ?tail" by simp
  have len: "length (dumps_at n x) \<le> f" using Cons.prems(3) f by simp
  from Cons.prems(2) have "reads_back x" by simp
  with len del have one: "scan_once f (dumps_at n x @ ?tail) = Ok (x, ?tail)"
    unfolding reads_back_def by blast
  show ?case
  proof (cases "xs = []")
    case True
    have "skip_ws ?close = CHR '']'' # rest" by (simp add: skip_ws_newline_indent_close)
    with one True show ?thesis by (simp add: f starts_def)
  next
    case False
    obtain c r where cr: "dump_items n xs = c # r" "value_start c"
      using dump_items_start [OF False] by blast
    have sk: "skip_ws (newline_indent n @ dump_items n xs @ ?close) = dump_items n xs @ ?close"
      using skip_ws_newline_indent [OF cr(2), of n "r @ ?close"] cr(1) by simp
    have l2: "length (dump_items n xs) < f"
      using Cons.prems(3) f False dumps_not_Nil [of n x]
      by (cases "dumps_at n x") auto
    from Cons.prems(2) have all: "\<forall>x \<in> set xs. reads_back x" by simp
    have rec: "scan_array f (acc @ [x]) (dump_items n xs @ ?close) = Ok (JArr ((acc @ [x]) @ xs), rest)"
      by (rule Cons.IH [OF False all l2])
    from False have tail: "?tail = CHR '','' # newline_indent n @ dump_items n xs @ ?close" by simp
    let ?more = "CHR '','' # newline_indent n @ dump_items n xs @ ?close"
    from one tail have one': "scan_once f (dumps_at n x @ ?more) = Ok (x, ?more)" by simp
    have "scan_array (Suc f) acc (dumps_at n x @ ?more) = Ok (JArr (acc @ x # xs), rest)"
      using rec sk by (simp add: one' not_ws_comma starts_def)
    with False f show ?thesis by simp
  qed
qed

lemma dict_set_fresh: "k \<notin> fst ` set b \<Longrightarrow> dict_set b k v = b @ [(k, v)]"
  by (induction b) auto

lemma dump_members_start:
  "kvs \<noteq> [] \<Longrightarrow> \<exists>r. dump_members n kvs = CHR 0x22 # r"
  by (cases kvs) (auto simp: dump_string_def)

lemma skip_ws_colon: "skip_ws (CHR '':'' # s) = CHR '':'' # s"
  by (simp add: skip_ws_def is_ws_def)

lemma skip_ws_space_value:
  "skip_ws (CHR '' '' # dumps_at n v @ s) = dumps_at n v @ s"
proof -
  obtain c r where cr: "dumps_at n v = c # r" "value_start c" using dumps_start by blast
  then have "\<not> is_ws c" by (auto simp: value_start_def is_ws_def is_digit_def)
  with cr(1) show ?thesis by (simp add: skip_ws_def is_ws_def)
qed

lemma scan_object_dump:
  assumes "kvs \<noteq> []" and "\<forall>kv \<in> set kvs. reads_back (snd kv)"
    and "distinct (map fst (acc @ kvs))" and "length (dump_members n kvs) < fuel"
  shows "scan_object fuel acc (tl (dump_members n kvs @ newline_indent m @ CHR ''}'' # rest)) =
           Ok (JObj (acc @ kvs), rest)"
  using assms
proof (induction kvs arbitrary: fuel acc)
  case Nil
  then show ?case by simp
next
  case (Cons kv kvs)
  obtain k v where kv: "kv = (k, v)" by (cases kv)
  from Cons.prems(4) obtain f where f: "fuel = Suc f" by (cases fuel) auto
  let ?close = "newline_indent m @ CHR ''}'' # rest"
  let ?tail = "if kvs = [] then ?close
               else CHR '','' # newline_indent n @ dump_members n kvs @ ?close"
  have shape: "tl (dump_members n (kv # kvs) @ ?close) =
      concat (map escape_char k) @ CHR 0x22 # (CHR '':'' # CHR '' '' # dumps_at n v @ ?tail)"
    by (simp add: kv dump_string_def)
  have key: "scanstring [] (tl (dump_members n (kv # kvs) @ ?close)) =
      Ok (k, CHR '':'' # CHR '' '' # dumps_at n v @ ?tail)"
    unfolding shape using scanstring_dump [of "[]" k] by simp
  have len: "length (dumps_at n v) \<le> f"
    using Cons.prems(4) f by (simp add: kv dump_string_def)
  from Cons.prems(2) have "reads_back v" by (simp add: kv)
  moreover have "delimited ?tail" by simp
  ultimately have one: "scan_once f (dumps_at n v @ ?tail) = Ok (v, ?tail)"
    using len unfolding reads_back_def by blast
  from Cons.prems(3) have fresh: "k \<notin> fst ` set acc" by (auto simp: kv)
  then have ds: "dict_set acc k v = acc @ [(k, v)]" by (rule dict_set_fresh)
  show ?case
  proof (cases "kvs = []")
    case True
    have "skip_ws ?close = CHR ''}'' # rest" by (simp add: skip_ws_newline_indent_close)
    with one True have one': "scan_once f (dumps_at n v @ ?close) = Ok (v, ?close)" by simp
    from key True have key': "scanstring [] (tl (dump_members n (kv # kvs) @ ?close)) =
        Ok (k, CHR '':'' # CHR '' '' # dumps_at n v @ ?close)"
      by simp
    have "scan_object (Suc f) acc (tl (dump_members n (kv # kvs) @ ?close)) =
        Ok (JObj (acc @ [(k, v)]), rest)"
      unfolding scan_object.simps key'
      by (simp add: skip_ws_colon skip_ws_space_value one' ds starts_def
          skip_ws_newline_indent_close)
    with True f kv show ?thesis by simp
  next
    case False
    obtain r where r: "dump_members n kvs = CHR 0x22 # r"
      using dump_members_start [OF False] by blast
    have vs: "value_start (CHR 0x22)" by (simp add: value_start_def)
    have sk: "skip_ws (newline_indent n @ dump_members n kvs @ ?close) = dump_members n kvs @ ?close"
      using skip_ws_newline_indent [OF vs, of n "r @ ?close"] r by simp
    have l2: "length (dump_members n kvs) < f"
      using Cons.prems(4) f False by (simp add: kv dump_string_def)
    from Cons.prems(2) have all: "\<forall>kv \<in> set kvs. reads_back (snd kv)" by simp
    from Cons.prems(3) have d: "distinct (map fst ((acc @ [(k, v)]) @ kvs))" by (simp add: kv)
    have rec: "scan_object f (acc @ [(k, v)]) (tl (dump_members n kvs @ ?close)) =
        Ok (JObj ((acc @ [(k, v)]) @ kvs), rest)"
      by (rule Cons.IH [OF False all d l2])
    let ?more = "CHR '','' # newline_indent n @ dump_members n kvs @ ?close"
    from one False have one': "scan_once f (dumps_at n v @ ?more) = Ok (v, ?more)" by simp
    from False have tail: "?tail = ?more" by simp
    have st: "starts CHR 0x22 (dump_members n kvs @ ?close)" by (simp add: r starts_def)
    from key False have key': "scanstring [] (tl (dump_members n (kv # kvs) @ ?close)) =
        Ok (k, CHR '':'' # CHR '' '' # dumps_at n v @ ?more)"
      by simp
    have "scan_object (Suc f) acc (tl (dump_members n (kv # kvs) @ ?close)) =
        Ok (JObj (acc @ (k, v) # kvs), rest)"
      unfolding scan_object.simps key'
      using rec st
      by (simp add: skip_ws_colon skip_ws_space_value one' ds starts_def not_ws_comma sk)
    with f kv show ?thesis by simp
  qed
qed

lemma reads_back_wf: "wf_json v \<Longrightarrow> reads_back v"
proof (induction v)
  case JNull
  show ?case
    unfolding reads_back_def
  proof (intro allI impI)
    fix level fuel rest
    assume "length (dumps_at level JNull) \<le> fuel"
    then obtain f where "fuel = Suc f" by (cases fuel) auto
    then show "scan_once fuel (dumps_at level JNull @ rest) = Ok (JNull, rest)"
      using scan_literal_atoms(1) [of rest] by (simp add: starts_def)
  qed
next
  case (JBool b)
  show ?case
    unfolding reads_back_def
  proof (intro allI impI)
    fix level fuel rest
    assume "length (dumps_at level (JBool b)) \<le> fuel"
    then obtain f where "fuel = Suc f" by (cases fuel) (auto split: if_splits)
    then show "scan_once fuel (dumps_at level (JBool b) @ rest) = Ok (JBool b, rest)"
      using scan_literal_atoms(2,3) [of rest] by (simp add: starts_def)
  qed
next
  case (JInt i)
  show ?case
    unfolding reads_back_def
  proof (intro allI impI)
    fix level fuel rest
    assume l: "length (dumps_at level (JInt i)) \<le> fuel" and d: "delimited rest"
    obtain c r where "int_repr i = c # r" using int_repr_start by blast
    with l obtain f where "fuel = Suc f" by (cases fuel) auto
    then show "scan_once fuel (dumps_at level (JInt i) @ rest) = Ok (JInt i, rest)"
      using int_repr_starts [of i rest] scan_literal_int [OF d, of i] by simp
  qed
next
  case (JStr s)
  show ?case
    unfolding reads_back_def
  proof (intro allI impI)
    fix level fuel rest
    assume "length (dumps_at level (JStr s)) \<le> fuel"
    then obtain f where "fuel = Suc f" by (cases fuel) (auto simp: dump_string_def)
    then show "scan_once fuel (dumps_at level (JStr s) @ rest) = Ok (JStr s, rest)"
      using scanstring_dump [of "[]" s rest] by (simp add: dump_string_def starts_def)
  qed
next
  case (JArr xs)
  then have all: "\<forall>x \<in> set xs. reads_back x" by simp
  show ?case
    unfolding reads_back_def
  proof (intro allI impI)
    fix level fuel rest
    assume l: "length (dumps_at level (JArr xs)) \<le> fuel"
    then obtain f where f: "fuel = Suc f" by (cases fuel) (auto split: if_splits)
    show "scan_once fuel (dumps_at level (JArr xs) @ rest) = Ok (JArr xs, rest)"
    proof (cases "xs = []")
      case True
      then show ?thesis by (simp add: f starts_def skip_ws_def is_ws_def)
    next
      case False
      obtain c r where cr: "dump_items (Suc level) xs = c # r" "value_start c"
        using dump_items_start [OF False] by blast
      let ?close = "newline_indent level @ CHR '']'' # rest"
      have sk: "skip_ws (newline_indent (Suc level) @ dump_items (Suc level) xs @ ?close) =
          dump_items (Suc level) xs @ ?close"
        using skip_ws_newline_indent [OF cr(2), of "Suc level" "r @ ?close"] cr(1) by simp
      have nc: "\<not> starts CHR '']'' (dump_items (Suc level) xs @ ?close)"
        using cr value_start_not_close [of c] by (simp add: starts_def)
      have l2: "length (dump_items (Suc level) xs) < f"
        using l f False by (simp add: newline_indent_def)
      have "scan_array f [] (dump_items (Suc level) xs @ ?close) = Ok (JArr ([] @ xs), rest)"
        by (rule scan_array_dump [OF False all l2])
      with sk nc False show ?thesis by (simp add: f starts_def)
    qed
  qed
next
  case (JObj kvs)
  then have all: "\<forall>kv \<in> set kvs. reads_back (snd kv)" and d: "distinct (map fst kvs)"
    by (auto simp: snds.simps)
  show ?case
    unfolding reads_back_def
  proof (intro allI impI)
    fix level fuel rest
    assume l: "length (dumps_at level (JObj kvs)) \<le> fuel"
    then obtain f where f: "fuel = Suc f" by (cases fuel) (auto split: if_splits)
    show "scan_once fuel (dumps_at level (JObj kvs) @ rest) = Ok (JObj kvs, rest)"
    proof (cases "kvs = []")
      case True
      then show ?thesis by (simp add: f starts_def skip_ws_def is_ws_def)
    next
      case False
      obtain r where r: "dump_members (Suc level) kvs = CHR 0x22 # r"
        using dump_members_start [OF False] by blast
      let ?close = "newline_indent level @ CHR ''}'' # rest"
      have vs: "value_start (CHR 0x22)" by (simp add: value_start_def)
      have sk: "skip_ws (newline_indent (Suc level) @ dump_members (Suc level) kvs @ ?close) =
          dump_members (Suc level) kvs @ ?close"
        using skip_ws_newline_indent [OF vs, of "Suc level" "r @ ?close"] r by simp
      have l2: "length (dump_members (Suc level) kvs) < f"
        using l f False by (simp add: newline_indent_def)
      from d have d': "distinct (map fst ([] @ kvs))" by simp
      have "scan_object f [] (tl (dump_members (Suc level) kvs @ ?close)) = Ok (JObj ([] @ kvs), rest)"
        by (rule scan_object_dump [OF False all d' l2])
      with sk r False show ?thesis by (simp add: f starts_def)
    qed
  qed
qed

lemma json_loads_dumps: "wf_json v \<Longrightarrow> json_loads (json_dumps v) = Ok v"
proof -
  assume "wf_json v"
  then have rb: "reads_back v" by (rule reads_back_wf)
  obtain c r where cr: "dumps_at 0 v = c # r" "value_start c" using dumps_start by blast
  then have "\<not> is_ws c" by (auto simp: value_start_def is_ws_def is_digit_def)
  with cr(1) have sk: "skip_ws (dumps_at 0 v) = dumps_at 0 v" by (simp add: skip_ws_def)
  have "length (dumps_at 0 v) \<le> 2 * length (dumps_at 0 v) + 2" by simp
  moreover have "delimited []" by simp
  ultimately have "scan_once (2 * length (dumps_at 0 v) + 2) (dumps_at 0 v @ []) = Ok (v, [])"
    using rb unfolding reads_back_def by blast
  then have "scan_once (2 * length (json_dumps v) + 2) (skip_ws (json_dumps v)) = Ok (v, [])"
    by (simp only: json_dumps_def sk append_Nil2)
  moreover have "skip_ws [] = []" by (simp add: skip_ws_def)
  ultimately show ?thesis by (simp add: json_loads_def del: scan_once.simps)
qed

subsection \<open>Flat-record store: what is read is well formed, and the fuel suffices\<close>

lemma dict_set_values: "kv \<in> set (dict_set b k v) \<Longrightarrow> kv = (k, v) \<or> kv \<in> set b"
  by (induction b) (auto split: if_splits)

lemma scan_literal_wf: "scan_literal s = Ok (v, r) \<Longrightarrow> wf_json v"
  by (auto simp: scan_literal_def match_number_def Let_def split: if_splits scan.splits)

lemma scan_wf:
  "(\<forall>s v r. scan_once fuel s = Ok (v, r) \<longrightarrow> wf_json v) \<and>
   (\<forall>acc s v r. (\<forall>x \<in> set acc. wf_json x) \<longrightarrow> scan_array fuel acc s = Ok (v, r) \<longrightarrow> wf_json v) \<and>
   (\<forall>acc s v r. distinct (map fst acc) \<longrightarrow> (\<forall>kv \<in> set acc. wf_json (snd kv)) \<longrightarrow>
      scan_object fuel acc s = Ok (v, r) \<longrightarrow> wf_json v)"
proof (induction fuel)
  case 0
  then show ?case by simp
next
  case (Suc fuel)
  then have P: "\<And>s v r. scan_once fuel s = Ok (v, r) \<Longrightarrow> wf_json v"
    and Q: "\<And>acc s v r. \<forall>x \<in> set acc. wf_json x \<Longrightarrow> scan_array fuel acc s = Ok (v, r) \<Longrightarrow> wf_json v"
    and R: "\<And>acc s v r. distinct (map fst acc) \<Longrightarrow> \<forall>kv \<in> set acc. wf_json (snd kv) \<Longrightarrow>
      scan_object fuel acc s = Ok (v, r) \<Longrightarrow> wf_json v"
    by blast+
  have P': "wf_json v" if ok: "scan_once (Suc fuel) s = Ok (v, r)" for s v r
  proof (cases "starts CHR 0x22 s")
    case True
    with ok show ?thesis by (auto split: scan.splits)
  next
    case q: False
    show ?thesis
    proof (cases "starts CHR ''{'' s")
      case True
      with q ok R [of "[]" "tl (skip_ws (tl s))" v r] show ?thesis
        by (auto simp: Let_def split: if_splits)
    next
      case b: False
      show ?thesis
      proof (cases "starts CHR ''['' s")
        case True
        with q b ok Q [of "[]" "skip_ws (tl s)" v r] show ?thesis
          by (auto simp: Let_def split: if_splits)
      next
        case False
        with q b ok show ?thesis by (simp add: scan_literal_wf)
      qed
    qed
  qed
  have Q': "wf_json v"
    if acc: "\<forall>x \<in> set acc. wf_json x" and ok: "scan_array (Suc fuel) acc s = Ok (v, r)"
    for acc s v r
  proof -
    from ok obtain x r0 where one: "scan_once fuel s = Ok (x, r0)"
      by (auto split: scan.splits)
    from P one have wx: "wf_json x" by blast
    with acc have acc': "\<forall>y \<in> set (acc @ [x]). wf_json y" by simp
    show "wf_json v"
    proof (cases "starts CHR '']'' (skip_ws r0)")
      case True
      with ok one acc' show ?thesis by (auto simp: Let_def)
    next
      case False
      show ?thesis
      proof (cases "starts CHR '','' (skip_ws r0)")
        case True
        with False ok one have "scan_array fuel (acc @ [x]) (skip_ws (tl (skip_ws r0))) = Ok (v, r)"
          by (simp add: Let_def)
        with Q acc' show ?thesis by blast
      next
        case c: False
        with False ok one show ?thesis by (simp add: Let_def)
      qed
    qed
  qed
  have R': "wf_json v"
    if d: "distinct (map fst acc)" and w: "\<forall>kv \<in> set acc. wf_json (snd kv)"
      and ok: "scan_object (Suc fuel) acc s = Ok (v, r)"
    for acc s v r
  proof -
    from ok obtain key r0 where key: "scanstring [] s = Ok (key, r0)"
      by (auto split: scan.splits)
    from ok key have colon: "starts CHR '':'' (skip_ws r0)"
      by (auto simp: Let_def split: if_splits)
    from ok key colon obtain x r2 where one: "scan_once fuel (skip_ws (tl (skip_ws r0))) = Ok (x, r2)"
      by (auto simp: Let_def split: scan.splits)
    from P one have wx: "wf_json x" by blast
    let ?acc = "dict_set acc key x"
    have d': "distinct (map fst ?acc)" using d by (rule dict_set_distinct)
    have w': "\<forall>kv \<in> set ?acc. wf_json (snd kv)"
    proof
      fix kv assume "kv \<in> set ?acc"
      then have "kv = (key, x) \<or> kv \<in> set acc" by (rule dict_set_values)
      with w wx show "wf_json (snd kv)" by auto
    qed
    show "wf_json v"
    proof (cases "starts CHR ''}'' (skip_ws r2)")
      case True
      with ok key colon one d' w' show ?thesis by (auto simp: Let_def)
    next
      case False
      show ?thesis
      proof (cases "starts CHR '','' (skip_ws r2) \<and> starts CHR 0x22 (skip_ws (tl (skip_ws r2)))")
        case True
        with False ok key colon one
        have rec: "scan_object fuel ?acc (tl (skip_ws (tl (skip_ws r2)))) = Ok (v, r)"
          by (simp add: Let_def)
        from R [OF d' w' rec] show ?thesis .
      next
        case n: False
        with False ok key colon one show ?thesis by (auto simp: Let_def split: if_splits)
      qed
    qed
  qed
  from P' Q' R' show ?case by blast
qed

lemma json_loads_wf: "json_loads s = Ok v \<Longrightarrow> wf_json v"
proof -
  assume "json_loads s = Ok v"
  then obtain r where "scan_once (2 * length s + 2) (skip_ws s) = Ok (v, r)"
    unfolding json_loads_def by (auto split: scan.splits prod.splits if_splits)
  with scan_wf show ?thesis by blast
qed

lemma skip_ws_le: "length (skip_ws s) \<le> length s"
  by (simp add: skip_ws_def length_dropWhile_le)

lemma starts_tl: "starts c s \<Longrightarrow> Suc (length (tl s)) = length s"
  by (cases s) (simp_all add: starts_def)

lemma decode_uXXXX_fuel: "decode_uXXXX s \<noteq> OutOfFuel"
  by (simp add: decode_uXXXX_def Let_def split: list.splits option.splits)

lemma scanstring_fuel: "scanstring acc s \<noteq> OutOfFuel"
proof (induction acc s rule: scanstring.induct)
  case (1 acc)
  then show ?case by simp
next
  case (2 acc c s)
  show ?case
  proof (cases "c = CHR 0x22")
    case True
    then show ?thesis by simp
  next
    case q: False
    show ?thesis
    proof (cases "c = CHR 0x5C")
      case False
      with q "2.IH"(3) show ?thesis by simp
    next
      case True
      show ?thesis
      proof (cases s)
        case Nil
        with q True show ?thesis by simp
      next
        case (Cons e s')
        show ?thesis
        proof (cases "e = CHR ''u''")
          case u: True
          show ?thesis
          proof (cases "decode_uXXXX s'")
            case (Ok x)
            with q True Cons u "2.IH"(1) [OF q True Cons u Ok] show ?thesis by simp
          next
            case OutOfFuel
            with decode_uXXXX_fuel show ?thesis by blast
          qed (use q True Cons u in simp_all)
        next
          case nu: False
          show ?thesis
          proof (cases "unescape e")
            case None
            with q True Cons nu show ?thesis by simp
          next
            case (Some x)
            with q True Cons nu "2.IH"(2) [OF q True Cons nu Some] show ?thesis by simp
          qed
        qed
      qed
    qed
  qed
qed

lemma scanstring_shorter: "scanstring acc s = Ok (x, r) \<Longrightarrow> length r < length s"
proof (induction acc s arbitrary: x r rule: scanstring.induct)
  case (1 acc)
  then show ?case by simp
next
  case (2 acc c s)
  show ?case
  proof (cases "c = CHR 0x22")
    case True
    with "2.prems" show ?thesis by simp
  next
    case q: False
    show ?thesis
    proof (cases "c = CHR 0x5C")
      case False
      with q "2.prems" have "scanstring (acc @ [c]) s = Ok (x, r)"
        by (simp split: if_splits)
      moreover from q False "2.prems" have "\<not> (of_char c :: nat) < 32"
        by (simp split: if_splits)
      ultimately have "length r < length s" using "2.IH"(3) [OF q False] by blast
      then show ?thesis by simp
    next
      case True
      show ?thesis
      proof (cases s)
        case Nil
        with q True "2.prems" show ?thesis by simp
      next
        case (Cons e s')
        show ?thesis
        proof (cases "e = CHR ''u''")
          case u: True
          show ?thesis
          proof (cases "decode_uXXXX s'")
            case (Ok y)
            with q True Cons u "2.prems" have "scanstring (acc @ [y]) (drop 4 s') = Ok (x, r)"
              by simp
            with "2.IH"(1) [OF q True Cons u Ok] have "length r < length (drop 4 s')" by blast
            with Cons show ?thesis by simp
          qed (use q True Cons u "2.prems" in simp_all)
        next
          case nu: False
          show ?thesis
          proof (cases "unescape e")
            case None
            with q True Cons nu "2.prems" show ?thesis by simp
          next
            case (Some y)
            with q True Cons nu "2.prems" have "scanstring (acc @ [y]) s' = Ok (x, r)" by simp
            with "2.IH"(2) [OF q True Cons nu Some] have "length r < length s'" by blast
            with Cons show ?thesis by simp
          qed
        qed
      qed
    qed
  qed
qed

lemma match_number_fuel: "match_number s \<noteq> OutOfFuel"
  by (simp add: match_number_def Let_def)

lemma match_number_shorter: "match_number s = Ok (v, r) \<Longrightarrow> length r < length s"
proof -
  assume ok: "match_number s = Ok (v, r)"
  let ?s1 = "if starts CHR ''-'' s then tl s else s"
  let ?ds = "if hd ?s1 = CHR ''0'' then ''0'' else takeWhile is_digit ?s1"
  from ok have ne: "?s1 \<noteq> []" and dg: "is_digit (hd ?s1)" and r: "r = drop (length ?ds) ?s1"
    by (auto simp: match_number_def Let_def split: if_splits)
  from ne dg have "takeWhile is_digit ?s1 \<noteq> []" by (cases ?s1) auto
  then have "0 < length ?ds" by simp
  with ne r have "length r < length ?s1" by simp
  moreover have "length ?s1 \<le> length s" by simp
  ultimately show ?thesis by simp
qed

lemma scan_literal_fuel: "scan_literal s \<noteq> OutOfFuel"
  using match_number_fuel [of s] by (simp add: scan_literal_def split: scan.splits)

lemma take_eq_length: "take n s = t \<Longrightarrow> length t = n \<Longrightarrow> n \<le> length s"
  by (metis length_take min.absorb_iff2 min.cobounded1 nat_le_linear take_all)

lemma scan_literal_shorter: "scan_literal s = Ok (v, r) \<Longrightarrow> length r < length s"
proof -
  assume ok: "scan_literal s = Ok (v, r)"
  consider "take 4 s = ''null''" | "take 4 s \<noteq> ''null''" "take 4 s = ''true''"
    | "take 4 s \<noteq> ''null''" "take 4 s \<noteq> ''true''" "take 5 s = ''false''"
    | "take 4 s \<noteq> ''null''" "take 4 s \<noteq> ''true''" "take 5 s \<noteq> ''false''"
    by blast
  then show ?thesis
  proof cases
    case 1
    then have "4 \<le> length s" by (rule take_eq_length) simp
    with 1 ok show ?thesis by (auto simp: scan_literal_def)
  next
    case 2
    from 2(2) have "4 \<le> length s" by (rule take_eq_length) simp
    with 2 ok show ?thesis by (auto simp: scan_literal_def)
  next
    case 3
    from 3(3) have "5 \<le> length s" by (rule take_eq_length) simp
    with 3 ok show ?thesis by (auto simp: scan_literal_def)
  next
    case 4
    with ok have "match_number s = Ok (v, r)"
      by (auto simp: scan_literal_def split: scan.splits if_splits)
    then show ?thesis by (rule match_number_shorter)
  qed
qed

lemma scan_shorter:
  "(\<forall>s v r. scan_once fuel s = Ok (v, r) \<longrightarrow> length r < length s) \<and>
   (\<forall>acc s v r. scan_array fuel acc s = Ok (v, r) \<longrightarrow> length r < length s) \<and>
   (\<forall>acc s v r. scan_object fuel acc s = Ok (v, r) \<longrightarrow> length r < length s)"
proof (induction fuel)
  case 0
  then show ?case by simp
next
  case (Suc fuel)
  then have P: "\<And>s v r. scan_once fuel s = Ok (v, r) \<Longrightarrow> length r < length s"
    and Q: "\<And>acc s v r. scan_array fuel acc s = Ok (v, r) \<Longrightarrow> length r < length s"
    and R: "\<And>acc s v r. scan_object fuel acc s = Ok (v, r) \<Longrightarrow> length r < length s"
    by blast+
  have P': "length r < length s" if ok: "scan_once (Suc fuel) s = Ok (v, r)" for s v r
  proof (cases "starts CHR 0x22 s")
    case True
    with ok obtain str where "scanstring [] (tl s) = Ok (str, r)"
      by (auto split: scan.splits)
    then have "length r < length (tl s)" by (rule scanstring_shorter)
    then show ?thesis by simp
  next
    case q: False
    show ?thesis
    proof (cases "starts CHR ''{'' s")
      case True
      let ?r = "skip_ws (tl s)"
      have le: "length ?r < length s" using skip_ws_le [of "tl s"] starts_tl [OF True] by simp
      show ?thesis
      proof (cases "starts CHR ''}'' ?r")
        case c: True
        with q True ok have "r = tl ?r" by (simp add: Let_def)
        with le show ?thesis by simp
      next
        case c: False
        with q True ok have "scan_object fuel [] (tl ?r) = Ok (v, r)"
          by (simp add: Let_def split: if_splits)
        from R [OF this] le show ?thesis by simp
      qed
    next
      case b: False
      show ?thesis
      proof (cases "starts CHR ''['' s")
        case True
        let ?r = "skip_ws (tl s)"
        have le: "length ?r < length s" using skip_ws_le [of "tl s"] starts_tl [OF True] by simp
        show ?thesis
        proof (cases "starts CHR '']'' ?r")
          case c: True
          with q b True ok have "r = tl ?r" by (simp add: Let_def)
          with le show ?thesis by simp
        next
          case c: False
          with q b True ok have "scan_array fuel [] ?r = Ok (v, r)" by (simp add: Let_def)
          from Q [OF this] le show ?thesis by simp
        qed
      next
        case False
        with q b ok have "scan_literal s = Ok (v, r)" by simp
        then show ?thesis by (rule scan_literal_shorter)
      qed
    qed
  qed
  have Q': "length r < length s" if ok: "scan_array (Suc fuel) acc s = Ok (v, r)" for acc s v r
  proof -
    from ok obtain x r0 where one: "scan_once fuel s = Ok (x, r0)"
      by (auto split: scan.splits)
    from P [OF one] have l0: "length r0 < length s" .
    let ?r1 = "skip_ws r0"
    have l1: "length ?r1 \<le> length r0" by (rule skip_ws_le)
    show ?thesis
    proof (cases "starts CHR '']'' ?r1")
      case True
      with ok one have "r = tl ?r1" by (simp add: Let_def)
      with l0 l1 show ?thesis by simp
    next
      case False
      show ?thesis
      proof (cases "starts CHR '','' ?r1")
        case True
        with False ok one have "scan_array fuel (acc @ [x]) (skip_ws (tl ?r1)) = Ok (v, r)"
          by (simp add: Let_def)
        from Q [OF this] have "length r < length (skip_ws (tl ?r1))" .
        with skip_ws_le [of "tl ?r1"] l0 l1 show ?thesis by simp
      next
        case c: False
        with False ok one show ?thesis by (simp add: Let_def)
      qed
    qed
  qed
  have R': "length r < length s" if ok: "scan_object (Suc fuel) acc s = Ok (v, r)" for acc s v r
  proof -
    from ok obtain key r0 where key: "scanstring [] s = Ok (key, r0)"
      by (auto split: scan.splits)
    from key have l0: "length r0 < length s" by (rule scanstring_shorter)
    from ok key have colon: "starts CHR '':'' (skip_ws r0)"
      by (auto simp: Let_def split: if_splits)
    from ok key colon obtain x r2 where one: "scan_once fuel (skip_ws (tl (skip_ws r0))) = Ok (x, r2)"
      by (auto simp: Let_def split: scan.splits)
    from P [OF one] have "length r2 < length (skip_ws (tl (skip_ws r0)))" .
    with skip_ws_le [of "tl (skip_ws r0)"] skip_ws_le [of r0] l0
    have l2: "length r2 < length s" by simp
    let ?r3 = "skip_ws r2"
    have l3: "length ?r3 \<le> length r2" by (rule skip_ws_le)
    show ?thesis
    proof (cases "starts CHR ''}'' ?r3")
      case True
      with ok key colon one have "r = tl ?r3" by (simp add: Let_def)
      with l2 l3 show ?thesis by simp
    next
      case False
      show ?thesis
      proof (cases "starts CHR '','' ?r3 \<and> starts CHR 0x22 (skip_ws (tl ?r3))")
        case True
        with False ok key colon one
        have "scan_object fuel (dict_set acc key x) (tl (skip_ws (tl ?r3))) = Ok (v, r)"
          by (simp add: Let_def)
        from R [OF this] have "length r < length (tl (skip_ws (tl ?r3)))" .
        with skip_ws_le [of "tl ?r3"] l2 l3 show ?thesis by simp
      next
        case n: False
        with False ok key colon one show ?thesis by (auto simp: Let_def split: if_splits)
      qed
    qed
  qed
  from P' Q' R' show ?case by blast
qed

lemma scan_fuel:
  "(\<forall>s. 2 * length s < fuel \<longrightarrow> scan_once fuel s \<noteq> OutOfFuel) \<and>
   (\<forall>acc s. 2 * length s + 1 < fuel \<longrightarrow> scan_array fuel acc s \<noteq> OutOfFuel) \<and>
   (\<forall>acc s. 2 * length s + 1 < fuel \<longrightarrow> scan_object fuel acc s \<noteq> OutOfFuel)"
proof (induction fuel)
  case 0
  then show ?case by simp
next
  case (Suc fuel)
  then have P: "\<And>s. 2 * length s < fuel \<Longrightarrow> scan_once fuel s \<noteq> OutOfFuel"
    and Q: "\<And>acc s. 2 * length s + 1 < fuel \<Longrightarrow> scan_array fuel acc s \<noteq> OutOfFuel"
    and R: "\<And>acc s. 2 * length s + 1 < fuel \<Longrightarrow> scan_object fuel acc s \<noteq> OutOfFuel"
    by blast+
  have P': "scan_once (Suc fuel) s \<noteq> OutOfFuel" if f: "2 * length s < Suc fuel" for s
  proof (cases "starts CHR 0x22 s")
    case True
    then show ?thesis using scanstring_fuel [of "[]" "tl s"] by (simp split: scan.splits)
  next
    case q: False
    show ?thesis
    proof (cases "starts CHR ''{'' s")
      case True
      let ?r = "skip_ws (tl s)"
      have le: "Suc (length ?r) \<le> length s"
        using skip_ws_le [of "tl s"] starts_tl [OF True] by simp
      show ?thesis
      proof (cases "\<not> starts CHR ''}'' ?r \<and> starts CHR 0x22 ?r")
        case c: True
        then have "starts CHR 0x22 ?r" by simp
        then have "Suc (length (tl ?r)) = length ?r" by (rule starts_tl)
        with le f have "2 * length (tl ?r) + 1 < fuel" by simp
        from R [OF this] q True c show ?thesis by (simp add: Let_def)
      next
        case c: False
        with q True show ?thesis by (auto simp: Let_def)
      qed
    next
      case b: False
      show ?thesis
      proof (cases "starts CHR ''['' s")
        case True
        let ?r = "skip_ws (tl s)"
        have le: "Suc (length ?r) \<le> length s"
          using skip_ws_le [of "tl s"] starts_tl [OF True] by simp
        with f have "2 * length ?r + 1 < fuel" by simp
        from Q [OF this] q b True show ?thesis by (simp add: Let_def)
      next
        case False
        with q b show ?thesis by (simp add: scan_literal_fuel)
      qed
    qed
  qed
  have Q': "scan_array (Suc fuel) acc s \<noteq> OutOfFuel" if f: "2 * length s + 1 < Suc fuel" for acc s
  proof (cases "scan_once fuel s")
    case (Ok p)
    obtain x r0 where p: "p = (x, r0)" by (cases p)
    from Ok p scan_shorter have l0: "length r0 < length s" by blast
    let ?r1 = "skip_ws r0"
    have l1: "length ?r1 \<le> length r0" by (rule skip_ws_le)
    show ?thesis
    proof (cases "\<not> starts CHR '']'' ?r1 \<and> starts CHR '','' ?r1")
      case True
      then have "starts CHR '','' ?r1" by simp
      then have "Suc (length (tl ?r1)) = length ?r1" by (rule starts_tl)
      with skip_ws_le [of "tl ?r1"] l0 l1 f
      have "2 * length (skip_ws (tl ?r1)) + 1 < fuel" by simp
      from Q [OF this] Ok p True show ?thesis by (simp add: Let_def)
    next
      case False
      with Ok p show ?thesis by (auto simp: Let_def)
    qed
  next
    case OutOfFuel
    moreover from f have "2 * length s < fuel" by simp
    ultimately show ?thesis using P by blast
  qed simp_all
  have R': "scan_object (Suc fuel) acc s \<noteq> OutOfFuel" if f: "2 * length s + 1 < Suc fuel" for acc s
  proof (cases "scanstring [] s")
    case (Ok p)
    obtain key r0 where p: "p = (key, r0)" by (cases p)
    from Ok p have l0: "length r0 < length s" by (simp add: scanstring_shorter)
    let ?r1 = "skip_ws r0"
    have l1: "length ?r1 \<le> length r0" by (rule skip_ws_le)
    show ?thesis
    proof (cases "starts CHR '':'' ?r1")
      case False
      with Ok p show ?thesis by (simp add: Let_def)
    next
      case colon: True
      let ?s2 = "skip_ws (tl ?r1)"
      have l2: "length ?s2 < length s"
        using skip_ws_le [of "tl ?r1"] starts_tl [OF colon] l0 l1 by simp
      show ?thesis
      proof (cases "scan_once fuel ?s2")
        case one: (Ok p2)
        obtain x r2 where p2: "p2 = (x, r2)" by (cases p2)
        from one p2 scan_shorter have l3: "length r2 < length ?s2" by blast
        let ?r3 = "skip_ws r2"
        have l4: "length ?r3 \<le> length r2" by (rule skip_ws_le)
        show ?thesis
        proof (cases "\<not> starts CHR ''}'' ?r3 \<and> starts CHR '','' ?r3 \<and>
            starts CHR 0x22 (skip_ws (tl ?r3))")
          case True
          have "length (tl (skip_ws (tl ?r3))) \<le> length ?r3"
            using skip_ws_le [of "tl ?r3"] by simp
          with l2 l3 l4 f have "2 * length (tl (skip_ws (tl ?r3))) + 1 < fuel" by simp
          from R [OF this] Ok p colon one p2 True show ?thesis by (simp add: Let_def)
        next
          case False
          with Ok p colon one p2 show ?thesis by (auto simp: Let_def)
        qed
      next
        case OutOfFuel
        moreover from f l2 have "2 * length ?s2 < fuel" by simp
        ultimately show ?thesis using P by blast
      qed (use Ok p colon in \<open>simp_all add: Let_def\<close>)
    qed
  next
    case OutOfFuel
    with scanstring_fuel show ?thesis by blast
  qed simp_all
  from P' Q' R' show ?case by blast
qed

lemma json_loads_fuel: "json_loads s \<noteq> OutOfFuel"
proof -
  have "2 * length (skip_ws s) < 2 * length s + 2" using skip_ws_le [of s] by simp
  with scan_fuel have "scan_once (2 * length s + 2) (skip_ws s) \<noteq> OutOfFuel" by blast
  then show ?thesis
    unfolding json_loads_def by (auto split: scan.splits simp del: scan_once.simps)
qed

subsection \<open>Flat-record store: the round trip\<close>

lemma wf_records:
  "wf_json (JArr (map product_json ps))" "wf_json (JArr (map location_json ls))"
  "wf_json (JArr (map movement_json ms))"
  by (auto simp: product_json_def location_json_def movement_json_def optional_json_def
      split: option.splits)

lemma optional_json_inject: "optional_json x = optional_json y \<Longrightarrow> x = y"
  by (auto simp: optional_json_def split: option.splits)

lemma records_json_inject:
  "map product_json ps = map product_json ps' \<Longrightarrow> ps = ps'"
  "map location_json ls = map location_json ls' \<Longrightarrow> ls = ls'"
  "map movement_json ms = map movement_json ms' \<Longrightarrow> ms = ms'"
proof -
  have "inj product_json"
    by (rule injI) (simp add: product_json_def)
  then show "map product_json ps = map product_json ps' \<Longrightarrow> ps = ps'"
    by (simp add: inj_map_eq_map)
  have "inj location_json"
    by (rule injI) (simp add: location_json_def)
  then show "map location_json ls = map location_json ls' \<Longrightarrow> ls = ls'"
    by (simp add: inj_map_eq_map)
  have "inj movement_json"
  proof (rule injI)
    fix x y assume "movement_json x = movement_json y"
    then have "movement_id x = movement_id y" "timestamp x = timestamp y"
      "from_location x = from_location y" "to_location x = to_location y"
      "m_product_id x = m_product_id y" "qty x = qty y"
      by (auto simp: movement_json_def dest: optional_json_inject)
    then show "x = y" by simp
  qed
  then show "map movement_json ms = map movement_json ms' \<Longrightarrow> ms = ms'"
    by (simp add: inj_map_eq_map)
qed

text \<open>
  Claim C8. Loading a file that does not exist gives the empty sequence. Loading the text
  \<open>save_data\<close> wrote for a value gives back that value, for every value \<^verbatim>\<open>json.dump\<close> can be
  given here and in particular for every sequence of products, locations or movements.
  For every state of the file, absent or any text, if loading succeeds with a value then
  saving that value and loading again gives the same value; and loading never stops for
  lack of fuel.
\<close>

theorem store_round_trip:
  "load_data_json None = Ok (JArr []) \<and>
   (wf_json v \<longrightarrow> load_data_json (save_data_json v) = Ok v) \<and>
   (load_data_json file = Ok v \<longrightarrow> load_data_json (save_data_json v) = Ok v) \<and>
   load_data_json file \<noteq> OutOfFuel \<and>
   load_data_json (save_data_json (JArr (map product_json ps))) = Ok (JArr (map product_json ps)) \<and>
   load_data_json (save_data_json (JArr (map location_json ls))) = Ok (JArr (map location_json ls)) \<and>
   load_data_json (save_data_json (JArr (map movement_json ms))) = Ok (JArr (map movement_json ms))"
proof -
  have rt: "load_data_json (save_data_json x) = Ok x" if "wf_json x" for x
    using that by (simp add: load_data_json_def save_data_json_def json_loads_dumps)
  have wf: "wf_json v" if "load_data_json file = Ok v"
  proof (cases "file")
    case None
    with that show ?thesis by (auto simp: load_data_json_def)
  next
    case (Some content)
    with that show ?thesis by (simp add: load_data_json_def json_loads_wf)
  qed
  have nf: "load_data_json file \<noteq> OutOfFuel"
    by (cases "file") (simp_all add: load_data_json_def json_loads_fuel)
  show ?thesis
    using rt wf nf wf_records by (auto simp: load_data_json_def)
qed

lemma example_dump:
  "json_dumps (JArr [movement_json example_movement]) = example_file_text"
  by code_simp

lemma compact_load:
  "json_loads compact_file_text =
     Ok (JArr [product_json \<lparr>product_id = ''P1'', p_name = ''Bolt'' @ [CHR 0xE9],
                             p_description = []\<rparr>])"
  by code_simp

lemma typed_store_text:
  "load_data_json (map_option (\<lambda>xs. json_dumps (JArr (map product_json xs))) pf) =
     Ok (JArr (map product_json (load_data pf)))"
  "load_data_json (map_option (\<lambda>xs. json_dumps (JArr (map location_json xs))) lf) =
     Ok (JArr (map location_json (load_data lf)))"
  "load_data_json (map_option (\<lambda>xs. json_dumps (JArr (map movement_json xs))) mf) =
     Ok (JArr (map movement_json (load_data mf)))"
proof -
  show "load_data_json (map_option (\<lambda>xs. json_dumps (JArr (map product_json xs))) pf) =
     Ok (JArr (map product_json (load_data pf)))"
    by (cases pf) (simp_all add: load_data_json_def load_data_def json_loads_dumps [OF wf_records(1)])
  show "load_data_json (map_option (\<lambda>xs. json_dumps (JArr (map location_json xs))) lf) =
     Ok (JArr (map location_json (load_data lf)))"
    by (cases lf) (simp_all add: load_data_json_def load_data_def json_loads_dumps [OF wf_records(2)])
  show "load_data_json (map_option (\<lambda>xs. json_dumps (JArr (map movement_json xs))) mf) =
     Ok (JArr (map movement_json (load_data mf)))"
    by (cases mf) (simp_all add: load_data_json_def load_data_def json_loads_dumps [OF wf_records(3)])
qed

lemma typed_store_save:
  "map_option (\<lambda>xs. json_dumps (JArr (map product_json xs))) (save_data ps) =
     save_data_json (JArr (map product_json ps))"
  "map_option (\<lambda>xs. json_dumps (JArr (map location_json xs))) (save_data ls) =
     save_data_json (JArr (map location_json ls))"
  "map_option (\<lambda>xs. json_dumps (JArr (map movement_json xs))) (save_data ms) =
     save_data_json (JArr (map movement_json ms))"
  by (simp_all add: save_data_def save_data_json_def)

theorem store_round_trip_witness:
  "wf_json (JArr (map movement_json [example_movement])) \<and>
   save_data_json (JArr (map movement_json [example_movement])) = Some example_file_text \<and>
   load_data_json (Some example_file_text) = Ok (JArr (map movement_json [example_movement])) \<and>
   load_data_json (Some compact_file_text) = Ok (JArr (map product_json [example_product])) \<and>
   load_data_json (save_data_json (JArr (map product_json [example_product]))) =
     Ok (JArr (map product_json [example_product])) \<and>
   load_data_json (Some ''[1,'') = Bad \<and>
   load_data_json (Some ''[1.5]'') = Outside"
proof -
  let ?m = "JArr (map movement_json [example_movement])"
  let ?p = "JArr (map product_json [example_product])"
  have w: "wf_json ?m" by (rule wf_records(3))
  have d: "save_data_json ?m = Some example_file_text"
    using example_dump by (simp add: save_data_json_def)
  have c: "load_data_json (Some compact_file_text) = Ok ?p"
    using compact_load by (simp add: load_data_json_def example_product_def)
  note t = store_round_trip [of ?m "Some compact_file_text" "[]" "[]" "[example_movement]"]
  note u = store_round_trip [of ?p "Some compact_file_text" "[example_product]" "[]" "[]"]
  from t [THEN conjunct2, THEN conjunct1] w
  have "load_data_json (save_data_json ?m) = Ok ?m" by (rule mp)
  then have 1: "load_data_json (Some example_file_text) = Ok ?m" by (simp only: d)
  from u [THEN conjunct2, THEN conjunct2, THEN conjunct1] c
  have 2: "load_data_json (save_data_json ?p) = Ok ?p" by (rule mp)
  have 3: "load_data_json (Some ''[1,'') = Bad" by code_simp
  have 4: "load_data_json (Some ''[1.5]'') = Outside" by code_simp
  show ?thesis by (intro conjI w d 1 c 2 3 4)
qed

end
